theory Spec2Isabelle
  imports Main "HOL-Library.Char_ord" "HOL-Library.List_Lexorder" "HOL-Library.AList"
begin

section \<open>Data model of \<open>aws-cloudwatch/lib/metric-util.ts\<close>\<close>

text \<open>
  The file works on objects of the interface \<open>IMetric\<close>; all it ever asks of one is
  \<open>toMetricConfig()\<close> and \<open>toString()\<close>. A metric is therefore modelled by the
  configuration it returns: the two optional parts \<open>metricStat\<close> and
  \<open>mathExpression\<close> (the code tests each for presence, so both, one or none may be
  there), the rendering properties, and the string of \<open>toString()\<close>.

  Conventions of the embedding:
  \<^item> an optional field \<open>f?: T\<close> is a \<open>T option\<close>; JavaScript truthiness of an
    optional string (\<open>if (x)\<close>) is \<open>truthy\<close>: the empty string counts as absent;
  \<^item> a \<open>Duration\<close> is the natural number \<open>toSeconds()\<close> returns;
  \<^item> an object used as a dictionary (\<open>usingMetrics\<close>, \<open>renderingProperties\<close>, the
    options of a row) is the association list of its \<open>Object.entries\<close>, in enumeration
    order; JavaScript objects have no repeated key, which \<open>wfIds\<close> records for
    \<open>usingMetrics\<close>;
  \<^item> a value stored in an options object is a \<open>jsval\<close>.
\<close>

datatype jsval = JUndefined | JBool bool | JNum nat | JStr string

record MetricStatConfig =
  dimensions :: "(string \<times> string) list option"
  namespace :: string
  metricName :: string
  period :: "nat option"
  statistic :: "string option"
  account :: "string option"
  region :: "string option"

datatype 'm MetricExpressionConfig =
  MetricExpressionConfig (expression: string) (usingMetrics: "(string \<times> 'm) list")

datatype IMetric =
  Metric (metricStat: "MetricStatConfig option")
         (mathExpression: "IMetric MetricExpressionConfig option")
         (renderingProperties: "(string \<times> jsval) list")
         (toString: string)

definition truthy :: "string option \<Rightarrow> bool" where
  "truthy x = (case x of None \<Rightarrow> False | Some s \<Rightarrow> s \<noteq> [])"

subsection \<open>\<open>Array.prototype.join\<close> and number formatting\<close>

fun join :: "string \<Rightarrow> string list \<Rightarrow> string" where
  "join sep [] = []"
| "join sep [p] = p"
| "join sep (p # q # ps) = p @ sep @ join sep (q # ps)"

fun digits :: "nat \<Rightarrow> string" where
  "digits n = (if n < 10 then [char_of (48 + n)] else digits (n div 10) @ [char_of (48 + n mod 10)])"

declare digits.simps [simp del]

subsection \<open>\<open>metricKey\<close>\<close>

text \<open>
  Lines 225--256 of the source. The loop over \<open>Object.keys(usingMetrics).sort()\<close> reads
  \<open>usingMetrics[id]\<close> for each sorted identifier; \<open>map_of\<close> is that lookup. The default
  \<open>sort()\<close> of JavaScript compares strings lexicographically by code unit, which is the
  order of \<open>string\<close> here.
\<close>

definition statParts :: "MetricStatConfig \<Rightarrow> string list" where
  "statParts st =
     [namespace st, metricName st]
     @ concat (map (\<lambda>(n, v). [n, v]) (case dimensions st of None \<Rightarrow> [] | Some ds \<Rightarrow> ds))
     @ (if truthy (statistic st) then [the (statistic st)] else [])
     @ (case period st of Some p \<Rightarrow> [digits p] | None \<Rightarrow> [])
     @ (if truthy (region st) then [the (region st)] else [])
     @ (if truthy (account st) then [the (account st)] else [])"

function metricKey :: "IMetric \<Rightarrow> string" where
  "metricKey (Metric st ex rp ts) =
     join ''|''
       ((case ex of
           None \<Rightarrow> []
         | Some e \<Rightarrow>
             expression e #
             concat (map (\<lambda>i. case map_of (usingMetrics e) i of
                                 Some sub \<Rightarrow> [i, metricKey sub]
                               | None \<Rightarrow> [])
                         (sort (map fst (usingMetrics e)))))
        @ (case st of None \<Rightarrow> [] | Some s \<Rightarrow> statParts s))"
  by pat_completeness auto

lemma size_usingMetrics_entry:
  "(i, sub) \<in> set um \<Longrightarrow>
   size sub < size (Metric st (Some (MetricExpressionConfig e um)) rp ts)"
  by (induction um) auto

lemma size_usingMetrics_lookup:
  "map_of (usingMetrics e) i = Some sub \<Longrightarrow> size sub < size (Metric st (Some e) rp ts)"
  by (cases e) (auto dest!: map_of_SomeD dest: size_usingMetrics_entry)

termination metricKey
proof (relation "measure size")
  show "wf (measure (size :: IMetric \<Rightarrow> nat))" by simp
next
  fix st :: "MetricStatConfig option" and ex :: "IMetric MetricExpressionConfig option"
    and e rp ts i sub
  assume "map_of (usingMetrics e) i = Some sub" and "ex = Some e"
  then have "size sub < size (Metric st ex rp ts)"
    by (simp only: size_usingMetrics_lookup)
  then show "(sub, Metric st ex rp ts) \<in> measure size"
    by (simp only: in_measure)
qed

subsection \<open>\<open>dispatchMetric\<close>\<close>

datatype error =
    BothConfigs \<comment> \<open>Metric object must not produce both 'metricStat' and 'mathExpression'\<close>
  | NoConfig \<comment> \<open>Metric object must have either 'metricStat' or 'mathExpression'\<close>
  | CantHappen \<comment> \<open>Can't happen, already checked elsewhere\<close>
  | IdConflict string IMetric IMetric
    \<comment> \<open>The ID 'id' used for two metrics in the expression: 'subMetric' and 'existing'\<close>

text \<open>
  \<open>dispatchMetric\<close> chooses the handler to call, or throws; the model returns the
  choice (\<open>Inl\<close> the stat configuration for \<open>withStat\<close>, \<open>Inr\<close> the expression for
  \<open>withExpression\<close>) and each caller continues with its own handler.
\<close>

definition dispatchMetric ::
  "IMetric \<Rightarrow> error + (MetricStatConfig + IMetric MetricExpressionConfig)" where
  "dispatchMetric m =
     (case (metricStat m, mathExpression m) of
        (Some st, Some e) \<Rightarrow> Inl BothConfigs
      | (Some st, None) \<Rightarrow> Inr (Inl st)
      | (None, Some e) \<Rightarrow> Inr (Inr e)
      | (None, None) \<Rightarrow> Inl NoConfig)"

subsection \<open>\<open>metricGraphJson\<close> and \<open>dropUndefined\<close>\<close>

datatype token = TStr string | TOpts "(string \<times> jsval) list"

definition js_truthy :: "jsval option \<Rightarrow> bool" where
  "js_truthy v =
     (case v of
        None \<Rightarrow> False
      | Some JUndefined \<Rightarrow> False
      | Some (JBool b) \<Rightarrow> b
      | Some (JNum n) \<Rightarrow> n \<noteq> 0
      | Some (JStr s) \<Rightarrow> s \<noteq> [])"

definition dropUndefined :: "(string \<times> jsval) list \<Rightarrow> (string \<times> jsval) list" where
  "dropUndefined x = filter (\<lambda>(key, v). v \<noteq> JUndefined) x"

text \<open>
  An assignment \<open>options.k = v\<close> is \<open>AList.update\<close>: it replaces the value of a key that
  is there, in place, and appends a new key at the end.
\<close>

definition withStat ::
  "MetricStatConfig \<Rightarrow> (string \<times> jsval) list \<Rightarrow> token list \<times> (string \<times> jsval) list" where
  "withStat stat options0 =
     (let ret = [TStr (namespace stat), TStr (metricName stat)]
                @ concat (map (\<lambda>(n, v). [TStr n, TStr v])
                            (case dimensions stat of None \<Rightarrow> [] | Some ds \<Rightarrow> ds));
          o1 = (if truthy (account stat)
                then AList.update ''accountId'' (JStr (the (account stat))) options0 else options0);
          o2 = (if truthy (region stat)
                then AList.update ''region'' (JStr (the (region stat))) o1 else o1);
          o3 = (case period stat of
                  Some p \<Rightarrow> if p \<noteq> 300 then AList.update ''period'' (JNum p) o2 else o2
                | None \<Rightarrow> o2);
          o4 = (if truthy (statistic stat) \<and> statistic stat \<noteq> Some ''Average''
                then AList.update ''stat'' (JStr (the (statistic stat))) o3 else o3)
      in (ret, o4))"

definition withExpression ::
  "IMetric MetricExpressionConfig \<Rightarrow> (string \<times> jsval) list
     \<Rightarrow> token list \<times> (string \<times> jsval) list" where
  "withExpression expr options0 = ([], AList.update ''expression'' (JStr (expression expr)) options0)"

definition metricGraphJson ::
  "IMetric \<Rightarrow> string option \<Rightarrow> string option \<Rightarrow> error + token list" where
  "metricGraphJson metric yAxis ident =
     (case dispatchMetric metric of
        Inl err \<Rightarrow> Inl err
      | Inr d \<Rightarrow>
          (let (ret, o0) = (case d of
                              Inl stat \<Rightarrow> withStat stat (renderingProperties metric)
                            | Inr expr \<Rightarrow> withExpression expr (renderingProperties metric));
               o1 = (if \<not> truthy yAxis then AList.update ''visible'' (JBool False) o0 else o0);
               o2 = (if yAxis \<noteq> Some ''left''
                     then AList.update ''yAxis''
                            (case yAxis of None \<Rightarrow> JUndefined | Some y \<Rightarrow> JStr y) o1
                     else o1);
               o3 = (if truthy ident then AList.update ''id'' (JStr (the ident)) o2 else o2);
               o4 = (if map_of o3 ''visible'' \<noteq> Some (JBool False)
                        \<and> js_truthy (map_of o3 ''expression'')
                        \<and> \<not> js_truthy (map_of o3 ''label'')
                     then AList.update ''label'' (JStr (toString metric)) o3 else o3);
               renderedOpts = dropUndefined o4
           in Inr (if length renderedOpts \<noteq> 0 then ret @ [TOpts renderedOpts] else ret)))"

subsection \<open>\<open>MetricSet\<close>\<close>

text \<open>
  The set is instantiated at \<open>MetricSet<string>\<close>, so a tag is a string. The array
  \<open>metrics\<close> owns the entries; the two maps hold references to entries of that array, and
  an entry is only ever created by pushing it there and is never removed, so a reference
  is the index of the entry in \<open>metrics\<close>. Mutating an entry through a reference is an
  update of the array at that index, which every other reference to it sees.
\<close>

record MetricEntry =
  metric :: IMetric
  tag :: "string option"
  idE :: "string option"

record MetricSet =
  metrics :: "MetricEntry list"
  metricById :: "string \<rightharpoonup> nat"
  metricByKey :: "string \<rightharpoonup> nat"

definition emptySet :: MetricSet where
  "emptySet = \<lparr>metrics = [], metricById = Map.empty, metricByKey = Map.empty\<rparr>"

definition entries :: "MetricSet \<Rightarrow> MetricEntry list" where
  "entries s = metrics s"

text \<open>
  Lines 137--155 of \<open>addOne\<close>: the entry to merge into, if any, or the defensive
  error.
\<close>

definition findExisting :: "MetricSet \<Rightarrow> string \<Rightarrow> string option \<Rightarrow> error + nat option" where
  "findExisting s key ident =
     (let byId = (if truthy ident then metricById s (the ident) else None)
      in case byId of
           Some i \<Rightarrow>
             if metricKey (metric (metrics s ! i)) \<noteq> key then Inl CantHappen
             else Inr (Some i)
         | None \<Rightarrow>
             (case metricByKey s key of
                Some j \<Rightarrow>
                  if truthy (idE (metrics s ! j)) \<and> truthy ident then Inr None
                  else Inr (Some j)
              | None \<Rightarrow> Inr None))"

text \<open>Lines 135--176 of \<open>addOne\<close>: everything before the recursion.\<close>

definition addEntry ::
  "MetricSet \<Rightarrow> IMetric \<Rightarrow> string option \<Rightarrow> string option \<Rightarrow> error + MetricSet" where
  "addEntry s m tg ident =
     (let key = metricKey m
      in case findExisting s key ident of
           Inl err \<Rightarrow> Inl err
         | Inr existingEntry \<Rightarrow>
             (let (s1, n) =
                    (case existingEntry of
                       Some i \<Rightarrow> (s, i)
                     | None \<Rightarrow>
                         (s\<lparr>metrics := metrics s @ [\<lparr>metric = m, tag = None, idE = None\<rparr>],
                            metricByKey := (metricByKey s)(key \<mapsto> length (metrics s))\<rparr>,
                          length (metrics s)));
                  s2 = (if \<not> truthy (idE (metrics s1 ! n)) \<and> truthy ident
                        then s1\<lparr>metrics := (metrics s1)[n := (metrics s1 ! n)\<lparr>idE := ident\<rparr>],
                                metricById := (metricById s1)(the ident \<mapsto> n)\<rparr>
                        else s1);
                  s3 = (if \<not> truthy (tag (metrics s2 ! n)) \<and> truthy tg
                        then s2\<lparr>metrics := (metrics s2)[n := (metrics s2 ! n)\<lparr>tag := tg\<rparr>]\<rparr>
                        else s2)
              in Inr s3))"

text \<open>
  \<open>addOne\<close> with its loop over \<open>Object.entries(usingMetrics)\<close> (\<open>addSubs\<close>). A throw
  leaves the loop and every enclosing call.
\<close>

function addOne ::
    "MetricSet \<Rightarrow> IMetric \<Rightarrow> string option \<Rightarrow> string option \<Rightarrow> error + MetricSet"
  and addSubs :: "MetricSet \<Rightarrow> (string \<times> IMetric) list \<Rightarrow> error + MetricSet" where
  "addOne s m tg ident =
     (case addEntry s m tg ident of
        Inl err \<Rightarrow> Inl err
      | Inr s' \<Rightarrow>
          (case mathExpression m of
             None \<Rightarrow> Inr s'
           | Some e \<Rightarrow> addSubs s' (usingMetrics e)))"
| "addSubs s [] = Inr s"
| "addSubs s ((subId, subMetric) # rest) =
     (case addOne s subMetric None (Some subId) of
        Inl err \<Rightarrow> Inl err
      | Inr s' \<Rightarrow> addSubs s' rest)"
  by pat_completeness auto

definition subsSize :: "(string \<times> IMetric) list \<Rightarrow> nat" where
  "subsSize um = size_list (\<lambda>p. size (snd p)) um"

lemma subsSize_less: "mathExpression m = Some e \<Longrightarrow> subsSize (usingMetrics e) < size m"
proof -
  have le: "size_list (\<lambda>p. size (snd p)) um \<le> size_list (size_prod (\<lambda>x. 0) size) um"
    for um :: "(string \<times> IMetric) list"
    by (induction um) auto
  show "mathExpression m = Some e \<Longrightarrow> subsSize (usingMetrics e) < size m"
    using le [of "usingMetrics e"] by (cases m; cases e) (auto simp: subsSize_def)
qed

termination addOne
proof (relation "measure (\<lambda>x. case x of Inl (s, m, tg, ident) \<Rightarrow> size m
                                       | Inr (s, um) \<Rightarrow> subsSize um)")
qed (auto simp: subsSize_less, auto simp: subsSize_def)

declare addOne.simps [simp del]

fun addTopLevel :: "MetricSet \<Rightarrow> string \<Rightarrow> IMetric list \<Rightarrow> error + MetricSet" where
  "addTopLevel s tg [] = Inr s"
| "addTopLevel s tg (m # ms) =
     (case addOne s m (Some tg) None of
        Inl err \<Rightarrow> Inl err
      | Inr s' \<Rightarrow> addTopLevel s' tg ms)"

subsection \<open>\<open>allMetricsGraphJson\<close>\<close>

fun renderAll :: "MetricEntry list \<Rightarrow> error + token list list" where
  "renderAll [] = Inr []"
| "renderAll (entry # es) =
     (case metricGraphJson (metric entry) (tag entry) (idE entry) of
        Inl err \<Rightarrow> Inl err
      | Inr row \<Rightarrow> (case renderAll es of Inl err \<Rightarrow> Inl err | Inr rows \<Rightarrow> Inr (row # rows)))"

definition allMetricsGraphJson :: "IMetric list \<Rightarrow> IMetric list \<Rightarrow> error + token list list" where
  "allMetricsGraphJson left right =
     (case addTopLevel emptySet ''left'' left of
        Inl err \<Rightarrow> Inl err
      | Inr s1 \<Rightarrow>
          (case addTopLevel s1 ''right'' right of
             Inl err \<Rightarrow> Inl err
           | Inr mset \<Rightarrow> renderAll (entries mset)))"

subsection \<open>\<open>validateNoIdConflicts\<close>\<close>

text \<open>
  \<open>visit\<close> with its loop over \<open>Object.entries(expr.usingMetrics)\<close> (\<open>visitSubs\<close>); the
  map \<open>seen\<close> of the enclosing function is passed through.
\<close>

function visit :: "(string \<rightharpoonup> IMetric) \<Rightarrow> IMetric \<Rightarrow> error + (string \<rightharpoonup> IMetric)"
  and visitSubs ::
    "(string \<rightharpoonup> IMetric) \<Rightarrow> (string \<times> IMetric) list \<Rightarrow> error + (string \<rightharpoonup> IMetric)" where
  "visit seen m =
     (case dispatchMetric m of
        Inl err \<Rightarrow> Inl err
      | Inr (Inl stat) \<Rightarrow> Inr seen
      | Inr (Inr expr) \<Rightarrow> visitSubs seen (usingMetrics expr))"
| "visitSubs seen [] = Inr seen"
| "visitSubs seen ((ident, subMetric) # rest) =
     (if (case seen ident of
            Some existing \<Rightarrow> metricKey existing \<noteq> metricKey subMetric
          | None \<Rightarrow> False)
      then Inl (IdConflict ident subMetric (the (seen ident)))
      else (case visit (seen(ident \<mapsto> subMetric)) subMetric of
              Inl err \<Rightarrow> Inl err
            | Inr seen' \<Rightarrow> visitSubs seen' rest))"
  by pat_completeness auto

lemma dispatchMetric_expr: "dispatchMetric m = Inr (Inr e) \<Longrightarrow> mathExpression m = Some e"
  by (auto simp: dispatchMetric_def split: option.splits)

termination visit
proof (relation "measure (\<lambda>x. case x of Inl (seen, m) \<Rightarrow> size m
                                       | Inr (seen, um) \<Rightarrow> subsSize um)")
qed (auto simp: subsSize_less dest!: dispatchMetric_expr, auto simp: subsSize_def)

declare visit.simps [simp del]

definition validateNoIdConflicts :: "IMetric \<Rightarrow> error + unit" where
  "validateNoIdConflicts expr =
     (case visit Map.empty expr of Inl err \<Rightarrow> Inl err | Inr seen \<Rightarrow> Inr ())"

section \<open>Example metrics\<close>

definition cpuConfig :: MetricStatConfig where
  "cpuConfig = \<lparr>dimensions = Some [(''InstanceId'', ''i-1'')], namespace = ''AWS/EC2'',
     metricName = ''CPUUtilization'', period = Some 300, statistic = Some ''Average'',
     account = None, region = None\<rparr>"

definition netConfig :: MetricStatConfig where
  "netConfig = \<lparr>dimensions = None, namespace = ''AWS/EC2'',
     metricName = ''NetworkIn'', period = Some 300, statistic = Some ''Average'',
     account = None, region = None\<rparr>"

definition statOf :: "MetricStatConfig \<Rightarrow> IMetric" where
  "statOf st = Metric (Some st) None [] (metricName st)"

definition exprOver :: "string \<Rightarrow> (string \<times> IMetric) list \<Rightarrow> IMetric" where
  "exprOver e um = Metric None (Some (MetricExpressionConfig e um)) [] e"

section \<open>The defensive error of the set builder\<close>

text \<open>
  Claim C9. There are two math expressions, each accepted by \<open>validateNoIdConflicts\<close> on
  its own, such that registering the first and then the second at top level on one
  \<open>MetricSet\<close> throws the error of line 143 (``Can't happen, already checked
  elsewhere''): both bind the identifier \<open>m1\<close>, to metrics with different keys.
\<close>

theorem defensive_error_reachable:
  "\<exists>E1 E2. validateNoIdConflicts E1 = Inr () \<and> validateNoIdConflicts E2 = Inr ()
     \<and> (\<exists>e1 e2. mathExpression E1 = Some e1 \<and> mathExpression E2 = Some e2)
     \<and> (\<exists>s1. addTopLevel emptySet ''left'' [E1] = Inr s1
            \<and> addTopLevel s1 ''left'' [E2] = Inl CantHappen)"
proof -
  let ?E1 = "exprOver ''m1 * 2'' [(''m1'', statOf cpuConfig)]"
  let ?E2 = "exprOver ''m1 + 1'' [(''m1'', statOf netConfig)]"
  have v1: "validateNoIdConflicts ?E1 = Inr ()" by code_simp
  have v2: "validateNoIdConflicts ?E2 = Inr ()" by code_simp
  have ex: "\<exists>e1 e2. mathExpression ?E1 = Some e1 \<and> mathExpression ?E2 = Some e2"
    by (simp add: exprOver_def)
  have "\<not> isl (addTopLevel emptySet ''left'' [?E1])" by code_simp
  then obtain s1 where s1: "addTopLevel emptySet ''left'' [?E1] = Inr s1"
    by (cases "addTopLevel emptySet ''left'' [?E1]") simp_all
  have "(case addTopLevel emptySet ''left'' [?E1] of
           Inl err \<Rightarrow> Inl err
         | Inr s \<Rightarrow> map_sum (\<lambda>x. x) entries (addTopLevel s ''left'' [?E2])) = Inl CantHappen"
    by code_simp
  with s1 have "addTopLevel s1 ''left'' [?E2] = Inl CantHappen"
    by (cases "addTopLevel s1 ''left'' [?E2]") simp_all
  with v1 v2 ex s1 show ?thesis by blast
qed

section \<open>The structural key is not injective on stat refs\<close>

text \<open>
  Claim C3 asks that two stat refs which differ in namespace, metric name, dimensions,
  statistic, period, account or region have different keys. The parts of the key are
  joined with \<open>|\<close> and an absent part is left out, so the key does not say which
  field a part came from: a stat ref with the two dimensions \<open>(a, b)\<close>, \<open>(c, d)\<close> and
  one with the single dimension \<open>(a, b|c|d)\<close> have the same key, and so have a stat ref
  with only a region \<open>x\<close> and one with only an account \<open>x\<close>. The doc comment of
  \<open>metricKey\<close> promises a unique string for a metric.
\<close>

theorem metricKey_collision:
  "metricKey (statOf (netConfig\<lparr>dimensions := Some [(''a'', ''b''), (''c'', ''d'')]\<rparr>))
     = metricKey (statOf (netConfig\<lparr>dimensions := Some [(''a'', ''b|c|d'')]\<rparr>))
   \<and> dimensions (netConfig\<lparr>dimensions := Some [(''a'', ''b''), (''c'', ''d'')]\<rparr>)
     \<noteq> dimensions (netConfig\<lparr>dimensions := Some [(''a'', ''b|c|d'')]\<rparr>)
   \<and> metricKey (statOf (cpuConfig\<lparr>region := Some ''x''\<rparr>))
     = metricKey (statOf (cpuConfig\<lparr>account := Some ''x''\<rparr>))
   \<and> region (cpuConfig\<lparr>region := Some ''x''\<rparr>) \<noteq> region (cpuConfig\<lparr>account := Some ''x''\<rparr>)"
  by code_simp

section \<open>Identifier conflicts in one expression tree\<close>

text \<open>
  All the pairs (identifier, metric) of the \<open>usingMetrics\<close> of a metric and of the
  metrics below it, in the order \<open>visit\<close> meets them.
\<close>

function bindings :: "IMetric \<Rightarrow> (string \<times> IMetric) list"
  and subBindings :: "(string \<times> IMetric) list \<Rightarrow> (string \<times> IMetric) list" where
  "bindings m = (case mathExpression m of None \<Rightarrow> [] | Some e \<Rightarrow> subBindings (usingMetrics e))"
| "subBindings [] = []"
| "subBindings ((ident, subMetric) # rest) =
     (ident, subMetric) # bindings subMetric @ subBindings rest"
  by pat_completeness auto

termination bindings
proof (relation "measure (\<lambda>x. case x of Inl m \<Rightarrow> size m | Inr um \<Rightarrow> subsSize um)")
qed (auto simp: subsSize_less, auto simp: subsSize_def)

declare bindings.simps [simp del]

text \<open>
  A metric is well formed when every metric of its tree has exactly one of the two
  configurations, which is what \<open>dispatchMetric\<close> insists on.
\<close>

definition oneVariant :: "IMetric \<Rightarrow> bool" where
  "oneVariant m = ((metricStat m = None) \<noteq> (mathExpression m = None))"

definition wellFormed :: "IMetric \<Rightarrow> bool" where
  "wellFormed m = list_all oneVariant (m # map snd (bindings m))"

text \<open>
  The traversal as a scan of the flattened bindings: \<open>firstConflict\<close> is the first
  binding whose identifier was last seen with a metric of another key.
\<close>

fun firstConflict ::
  "(string \<rightharpoonup> IMetric) \<Rightarrow> (string \<times> IMetric) list \<Rightarrow> (string \<times> IMetric \<times> IMetric) option" where
  "firstConflict seen [] = None"
| "firstConflict seen ((i, x) # bs) =
     (case seen i of
        Some y \<Rightarrow> if metricKey y \<noteq> metricKey x then Some (i, x, y)
                  else firstConflict (seen(i \<mapsto> x)) bs
      | None \<Rightarrow> firstConflict (seen(i \<mapsto> x)) bs)"

fun scanSeen :: "(string \<rightharpoonup> IMetric) \<Rightarrow> (string \<times> IMetric) list \<Rightarrow> (string \<rightharpoonup> IMetric)" where
  "scanSeen seen [] = seen"
| "scanSeen seen ((i, x) # bs) = scanSeen (seen(i \<mapsto> x)) bs"

definition scanResult ::
  "(string \<rightharpoonup> IMetric) \<Rightarrow> (string \<times> IMetric) list \<Rightarrow> error + (string \<rightharpoonup> IMetric)" where
  "scanResult seen bs =
     (case firstConflict seen bs of
        Some (i, x, y) \<Rightarrow> Inl (IdConflict i x y)
      | None \<Rightarrow> Inr (scanSeen seen bs))"

lemma scanSeen_append: "scanSeen seen (as @ bs) = scanSeen (scanSeen seen as) bs"
  by (induction as arbitrary: seen) auto

lemma firstConflict_append:
  "firstConflict seen (as @ bs) =
     (case firstConflict seen as of
        Some c \<Rightarrow> Some c
      | None \<Rightarrow> firstConflict (scanSeen seen as) bs)"
  by (induction as arbitrary: seen) (auto split: option.splits)

lemma scanResult_Nil: "scanResult seen [] = Inr seen"
  by (simp add: scanResult_def)

lemma scanResult_append:
  "scanResult seen (as @ bs) =
     (case scanResult seen as of Inl err \<Rightarrow> Inl err | Inr seen' \<Rightarrow> scanResult seen' bs)"
  by (auto simp: scanResult_def firstConflict_append scanSeen_append split: option.splits)

lemma scanResult_Cons:
  "scanResult seen ((i, x) # bs) =
     (if (case seen i of Some y \<Rightarrow> metricKey y \<noteq> metricKey x | None \<Rightarrow> False)
      then Inl (IdConflict i x (the (seen i)))
      else scanResult (seen(i \<mapsto> x)) bs)"
  by (auto simp: scanResult_def split: option.splits)

lemma visit_scan:
  "list_all oneVariant (m # map snd (bindings m)) \<Longrightarrow> visit seen m = scanResult seen (bindings m)"
  "list_all oneVariant (map snd (subBindings um)) \<Longrightarrow> visitSubs seen um = scanResult seen (subBindings um)"
proof (induction seen m and seen um rule: visit_visitSubs.induct)
  case (1 seen m)
  then show ?case
    by (cases "metricStat m"; cases "mathExpression m")
       (auto simp: visit.simps(1) bindings.simps(1) dispatchMetric_def oneVariant_def scanResult_Nil)
next
  case (2 seen)
  then show ?case by (simp add: scanResult_Nil)
next
  case (3 seen ident subMetric rest)
  let ?clash = "case seen ident of Some y \<Rightarrow> metricKey y \<noteq> metricKey subMetric | None \<Rightarrow> False"
  let ?seen1 = "seen(ident \<mapsto> subMetric)"
  from "3.prems" have wfSub: "list_all oneVariant (subMetric # map snd (bindings subMetric))"
    and wfRest: "list_all oneVariant (map snd (subBindings rest))"
    by simp_all
  show ?case
  proof (cases ?clash)
    case True
    then show ?thesis by (simp add: scanResult_Cons)
  next
    case False
    have sub: "visit ?seen1 subMetric = scanResult ?seen1 (bindings subMetric)"
      using "3.IH"(1) [OF False wfSub] .
    show ?thesis
    proof (cases "visit ?seen1 subMetric")
      case (Inl err)
      with sub have "scanResult ?seen1 (bindings subMetric) = Inl err" by simp
      with False Inl show ?thesis
        by (simp add: scanResult_Cons scanResult_append)
    next
      case (Inr seen')
      from sub Inr have "scanResult ?seen1 (bindings subMetric) = Inr seen'" by simp
      moreover have "visitSubs seen' rest = scanResult seen' (subBindings rest)"
        using "3.IH"(2) [OF False Inr wfRest] .
      ultimately show ?thesis using False Inr
        by (simp add: scanResult_Cons scanResult_append)
    qed
  qed
qed

text \<open>
  The same identifier bound to two metrics with different keys, anywhere in the list.
\<close>

definition idConflict :: "(string \<times> IMetric) list \<Rightarrow> bool" where
  "idConflict bs = (\<exists>(i, x) \<in> set bs. \<exists>(j, y) \<in> set bs. i = j \<and> metricKey x \<noteq> metricKey y)"

definition agrees :: "(string \<rightharpoonup> IMetric) \<Rightarrow> (string \<times> IMetric) list \<Rightarrow> bool" where
  "agrees seen bs = (\<forall>(i, x) \<in> set bs. \<forall>y. seen i = Some y \<longrightarrow> metricKey y = metricKey x)"

lemma idConflict_Cons:
  "idConflict ((i, x) # bs) \<longleftrightarrow>
     idConflict bs \<or> (\<exists>z. (i, z) \<in> set bs \<and> metricKey z \<noteq> metricKey x)"
  unfolding idConflict_def by (simp add: case_prod_unfold Bex_def) (metis prod.collapse fst_conv snd_conv)

lemma agrees_Cons:
  "agrees seen ((i, x) # bs) \<longleftrightarrow>
     (\<forall>y. seen i = Some y \<longrightarrow> metricKey y = metricKey x) \<and> agrees seen bs"
  by (auto simp: agrees_def)

lemma agrees_upd:
  assumes "\<forall>y. seen i = Some y \<longrightarrow> metricKey y = metricKey x"
  shows "agrees (seen(i \<mapsto> x)) bs \<longleftrightarrow>
     agrees seen bs \<and> \<not> (\<exists>z. (i, z) \<in> set bs \<and> metricKey z \<noteq> metricKey x)"
proof
  assume l: "agrees (seen(i \<mapsto> x)) bs"
  have "agrees seen bs"
    unfolding agrees_def
  proof (clarify)
    fix j z y assume jz: "(j, z) \<in> set bs" and y: "seen j = Some y"
    show "metricKey y = metricKey z"
    proof (cases "j = i")
      case True
      with l jz have "metricKey x = metricKey z" by (auto simp: agrees_def)
      with assms y True show ?thesis by simp
    next
      case False
      with l jz y show ?thesis by (auto simp: agrees_def)
    qed
  qed
  moreover from l have "\<not> (\<exists>z. (i, z) \<in> set bs \<and> metricKey z \<noteq> metricKey x)"
    by (auto simp: agrees_def)
  ultimately show "agrees seen bs \<and> \<not> (\<exists>z. (i, z) \<in> set bs \<and> metricKey z \<noteq> metricKey x)" ..
next
  assume r: "agrees seen bs \<and> \<not> (\<exists>z. (i, z) \<in> set bs \<and> metricKey z \<noteq> metricKey x)"
  show "agrees (seen(i \<mapsto> x)) bs"
    unfolding agrees_def
  proof (clarify)
    fix j z y assume jz: "(j, z) \<in> set bs" and y: "(seen(i \<mapsto> x)) j = Some y"
    show "metricKey y = metricKey z"
    proof (cases "j = i")
      case True
      with r jz y show ?thesis by auto
    next
      case False
      with r jz y show ?thesis by (auto simp: agrees_def)
    qed
  qed
qed

lemma firstConflict_None:
  "firstConflict seen bs = None \<longleftrightarrow> agrees seen bs \<and> \<not> idConflict bs"
proof (induction bs arbitrary: seen)
  case Nil
  show ?case by (simp add: agrees_def idConflict_def)
next
  case (Cons b bs)
  obtain i x where b: "b = (i, x)" by (cases b)
  show ?case
  proof (cases "\<forall>y. seen i = Some y \<longrightarrow> metricKey y = metricKey x")
    case True
    then have "firstConflict seen (b # bs) = firstConflict (seen(i \<mapsto> x)) bs"
      by (auto simp: b split: option.splits)
    then have "firstConflict seen (b # bs) = None \<longleftrightarrow>
                 agrees (seen(i \<mapsto> x)) bs \<and> \<not> idConflict bs"
      by (simp only: Cons.IH)
    also have "\<dots> \<longleftrightarrow> agrees seen (b # bs) \<and> \<not> idConflict (b # bs)"
      unfolding b idConflict_Cons agrees_Cons agrees_upd [of seen i x bs, OF True]
      using True by blast
    finally show ?thesis .
  next
    case False
    then show ?thesis
      by (auto simp: b agrees_Cons split: option.splits)
  qed
qed

lemma firstConflict_Some:
  "firstConflict seen bs = Some (i, x, y) \<Longrightarrow>
     (i, x) \<in> set bs \<and> metricKey y \<noteq> metricKey x \<and> (seen i = Some y \<or> (i, y) \<in> set bs)"
proof (induction bs arbitrary: seen)
  case Nil
  then show ?case by simp
next
  case (Cons b bs)
  obtain j z where b: "b = (j, z)" by (cases b)
  show ?case
  proof (cases "firstConflict seen (b # bs) = firstConflict (seen(j \<mapsto> z)) bs")
    case True
    with Cons.prems have "firstConflict (seen(j \<mapsto> z)) bs = Some (i, x, y)" by simp
    from Cons.IH [OF this] show ?thesis
      by (auto simp: b split: if_splits)
  next
    case False
    with Cons.prems show ?thesis
      by (auto simp: b split: option.splits if_splits)
  qed
qed

lemma validate_scan:
  "wellFormed m \<Longrightarrow>
   validateNoIdConflicts m =
     (case firstConflict Map.empty (bindings m) of
        Some (i, x, y) \<Rightarrow> Inl (IdConflict i x y)
      | None \<Rightarrow> Inr ())"
  by (simp add: validateNoIdConflicts_def wellFormed_def visit_scan(1) scanResult_def
           split: option.splits)

text \<open>
  Claim C2. On a well-formed metric, \<open>validateNoIdConflicts\<close> throws the identifier
  conflict error exactly when some identifier is bound, anywhere in the tree, to two
  metrics with different keys; the error names an identifier and two metrics bound to it
  in the tree whose keys differ. Otherwise it returns normally.
\<close>

theorem validateNoIdConflicts_conflicts:
  "wellFormed expr \<Longrightarrow>
   (if idConflict (bindings expr)
    then \<exists>i x y. validateNoIdConflicts expr = Inl (IdConflict i x y)
           \<and> (i, x) \<in> set (bindings expr) \<and> (i, y) \<in> set (bindings expr)
           \<and> metricKey x \<noteq> metricKey y
    else validateNoIdConflicts expr = Inr ())"
proof (cases "firstConflict Map.empty (bindings expr)")
  case None
  assume "wellFormed expr"
  with None firstConflict_None [of Map.empty "bindings expr"] show ?thesis
    by (simp add: validate_scan)
next
  case (Some c)
  assume wf: "wellFormed expr"
  obtain i x y where c: "c = (i, x, y)" by (cases c)
  from Some firstConflict_None [of Map.empty "bindings expr"]
  have "idConflict (bindings expr)" by (simp add: agrees_def)
  moreover from firstConflict_Some [OF Some [unfolded c]]
  have "(i, x) \<in> set (bindings expr) \<and> (i, y) \<in> set (bindings expr)
          \<and> metricKey x \<noteq> metricKey y"
    by auto
  ultimately show ?thesis using wf Some c
    by (auto simp: validate_scan)
qed

definition nestedClash :: IMetric where
  "nestedClash =
     exprOver ''x + y''
       [(''x'', statOf cpuConfig), (''y'', exprOver ''x * 2'' [(''x'', statOf netConfig)])]"

theorem validateNoIdConflicts_conflicts_witness:
  "wellFormed nestedClash \<and> idConflict (bindings nestedClash)
   \<and> validateNoIdConflicts nestedClash = Inl (IdConflict ''x'' (statOf netConfig) (statOf cpuConfig))
   \<and> wellFormed (exprOver ''x * 2'' [(''x'', statOf netConfig)])
   \<and> \<not> idConflict (bindings (exprOver ''x * 2'' [(''x'', statOf netConfig)]))
   \<and> validateNoIdConflicts (exprOver ''x * 2'' [(''x'', statOf netConfig)]) = Inr ()"
proof -
  have wf1: "wellFormed nestedClash" by code_simp
  have c1: "idConflict (bindings nestedClash)" by code_simp
  have r1: "validateNoIdConflicts nestedClash
              = Inl (IdConflict ''x'' (statOf netConfig) (statOf cpuConfig))"
    by code_simp
  have wf2: "wellFormed (exprOver ''x * 2'' [(''x'', statOf netConfig)])" by code_simp
  have c2: "\<not> idConflict (bindings (exprOver ''x * 2'' [(''x'', statOf netConfig)]))"
    by code_simp
  from validateNoIdConflicts_conflicts [OF wf2] c2
  have "validateNoIdConflicts (exprOver ''x * 2'' [(''x'', statOf netConfig)]) = Inr ()"
    by simp
  with wf1 c1 r1 wf2 c2 show ?thesis by simp
qed


section \<open>Invariants of the set builder\<close>

text \<open>
  The three updates \<open>addOne\<close> makes to the set, named for the proofs: pushing a new
  entry (lines 162--164), binding an identifier (lines 168--171) and binding a tag (lines
  174--176).
\<close>

definition pushEntry :: "MetricSet \<Rightarrow> IMetric \<Rightarrow> MetricSet" where
  "pushEntry s m =
     s\<lparr>metrics := metrics s @ [\<lparr>metric = m, tag = None, idE = None\<rparr>],
       metricByKey := (metricByKey s)(metricKey m \<mapsto> length (metrics s))\<rparr>"

definition setId :: "MetricSet \<Rightarrow> nat \<Rightarrow> string option \<Rightarrow> MetricSet" where
  "setId s n ident =
     (if \<not> truthy (idE (metrics s ! n)) \<and> truthy ident
      then s\<lparr>metrics := (metrics s)[n := (metrics s ! n)\<lparr>idE := ident\<rparr>],
             metricById := (metricById s)(the ident \<mapsto> n)\<rparr>
      else s)"

definition setTag :: "MetricSet \<Rightarrow> nat \<Rightarrow> string option \<Rightarrow> MetricSet" where
  "setTag s n tg =
     (if \<not> truthy (tag (metrics s ! n)) \<and> truthy tg
      then s\<lparr>metrics := (metrics s)[n := (metrics s ! n)\<lparr>tag := tg\<rparr>]\<rparr>
      else s)"

lemma addEntry_steps:
  "addEntry s m tg ident =
     (case findExisting s (metricKey m) ident of
        Inl err \<Rightarrow> Inl err
      | Inr (Some i) \<Rightarrow> Inr (setTag (setId s i ident) i tg)
      | Inr None \<Rightarrow>
          Inr (setTag (setId (pushEntry s m) (length (metrics s)) ident) (length (metrics s)) tg))"
  by (simp add: addEntry_def Let_def setTag_def setId_def pushEntry_def split: sum.splits option.splits)

text \<open>
  The invariant of the set: the identifier index maps an identifier to an entry that
  carries it, every identifier an entry carries is in the index, the key index maps a key
  to an entry with that key, and the key of every entry is in the key index.
\<close>

definition idIndexSound :: "MetricSet \<Rightarrow> bool" where
  "idIndexSound s \<longleftrightarrow>
     (\<forall>ident i. metricById s ident = Some i \<longrightarrow>
        i < length (metrics s) \<and> idE (metrics s ! i) = Some ident \<and> ident \<noteq> [])"

definition idIndexComplete :: "MetricSet \<Rightarrow> bool" where
  "idIndexComplete s \<longleftrightarrow>
     (\<forall>i ident. i < length (metrics s) \<and> idE (metrics s ! i) = Some ident \<longrightarrow>
        metricById s ident = Some i)"

definition keyIndexSound :: "MetricSet \<Rightarrow> bool" where
  "keyIndexSound s \<longleftrightarrow>
     (\<forall>k j. metricByKey s k = Some j \<longrightarrow>
        j < length (metrics s) \<and> metricKey (metric (metrics s ! j)) = k)"

definition keyIndexComplete :: "MetricSet \<Rightarrow> bool" where
  "keyIndexComplete s \<longleftrightarrow>
     (\<forall>i. i < length (metrics s) \<longrightarrow>
        metricByKey s (metricKey (metric (metrics s ! i))) \<noteq> None)"

definition wfSet :: "MetricSet \<Rightarrow> bool" where
  "wfSet s \<longleftrightarrow> idIndexSound s \<and> idIndexComplete s \<and> keyIndexSound s \<and> keyIndexComplete s"

lemmas wfSet_defs = wfSet_def idIndexSound_def idIndexComplete_def keyIndexSound_def
  keyIndexComplete_def

lemma wfSet_empty: "wfSet emptySet"
  by (simp add: wfSet_defs emptySet_def)

lemma setTag_simps [simp]:
  "length (metrics (setTag s n tg)) = length (metrics s)"
  "metricById (setTag s n tg) = metricById s"
  "metricByKey (setTag s n tg) = metricByKey s"
  by (simp_all add: setTag_def)

lemma setTag_nth:
  "i < length (metrics s) \<Longrightarrow>
   metrics (setTag s n tg) ! i =
     (if i = n \<and> \<not> truthy (tag (metrics s ! n)) \<and> truthy tg
      then (metrics s ! n)\<lparr>tag := tg\<rparr> else metrics s ! i)"
  by (simp add: setTag_def nth_list_update)

lemma setTag_nth_fields [simp]:
  "i < length (metrics s) \<Longrightarrow> metric (metrics (setTag s n tg) ! i) = metric (metrics s ! i)"
  "i < length (metrics s) \<Longrightarrow> idE (metrics (setTag s n tg) ! i) = idE (metrics s ! i)"
  by (simp_all add: setTag_nth)

lemma setTag_idIndexSound: "idIndexSound s \<Longrightarrow> idIndexSound (setTag s n tg)"
  by (auto simp: idIndexSound_def)

lemma setTag_idIndexComplete: "idIndexComplete s \<Longrightarrow> idIndexComplete (setTag s n tg)"
  by (auto simp: idIndexComplete_def)

lemma setTag_keyIndexSound: "keyIndexSound s \<Longrightarrow> keyIndexSound (setTag s n tg)"
  by (auto simp: keyIndexSound_def)

lemma setTag_keyIndexComplete: "keyIndexComplete s \<Longrightarrow> keyIndexComplete (setTag s n tg)"
  by (auto simp: keyIndexComplete_def)

lemma wfSet_setTag: "wfSet s \<Longrightarrow> wfSet (setTag s n tg)"
  by (simp add: wfSet_def setTag_idIndexSound setTag_idIndexComplete setTag_keyIndexSound
        setTag_keyIndexComplete)

lemma pushEntry_simps [simp]:
  "length (metrics (pushEntry s m)) = Suc (length (metrics s))"
  "metricById (pushEntry s m) = metricById s"
  "metricByKey (pushEntry s m) = (metricByKey s)(metricKey m \<mapsto> length (metrics s))"
  "i < length (metrics s) \<Longrightarrow> metrics (pushEntry s m) ! i = metrics s ! i"
  "metrics (pushEntry s m) ! length (metrics s) = \<lparr>metric = m, tag = None, idE = None\<rparr>"
  by (simp_all add: pushEntry_def nth_append)

lemma pushEntry_idIndexSound: "idIndexSound s \<Longrightarrow> idIndexSound (pushEntry s m)"
  unfolding idIndexSound_def
proof (intro allI impI)
  fix ident i
  assume a: "\<forall>ident i. metricById s ident = Some i \<longrightarrow>
        i < length (metrics s) \<and> idE (metrics s ! i) = Some ident \<and> ident \<noteq> []"
    and b: "metricById (pushEntry s m) ident = Some i"
  from b have "metricById s ident = Some i" by simp
  with a have "i < length (metrics s) \<and> idE (metrics s ! i) = Some ident \<and> ident \<noteq> []" by blast
  then show "i < length (metrics (pushEntry s m)) \<and>
       idE (metrics (pushEntry s m) ! i) = Some ident \<and> ident \<noteq> []" by simp
qed

lemma pushEntry_idIndexComplete: "idIndexComplete s \<Longrightarrow> idIndexComplete (pushEntry s m)"
  unfolding idIndexComplete_def
proof (intro allI impI)
  fix i ident
  assume a: "\<forall>i ident. i < length (metrics s) \<and> idE (metrics s ! i) = Some ident \<longrightarrow>
        metricById s ident = Some i"
    and b: "i < length (metrics (pushEntry s m)) \<and> idE (metrics (pushEntry s m) ! i) = Some ident"
  have "i < length (metrics s)"
  proof (rule ccontr)
    assume "\<not> i < length (metrics s)"
    with b have "i = length (metrics s)" by simp
    with b show False by simp
  qed
  with a b show "metricById (pushEntry s m) ident = Some i" by simp
qed

lemma pushEntry_keyIndexSound: "keyIndexSound s \<Longrightarrow> keyIndexSound (pushEntry s m)"
  unfolding keyIndexSound_def
proof (intro allI impI)
  fix k j
  assume a: "\<forall>k j. metricByKey s k = Some j \<longrightarrow>
        j < length (metrics s) \<and> metricKey (metric (metrics s ! j)) = k"
    and b: "metricByKey (pushEntry s m) k = Some j"
  show "j < length (metrics (pushEntry s m)) \<and> metricKey (metric (metrics (pushEntry s m) ! j)) = k"
  proof (cases "k = metricKey m")
    case True
    with b have "j = length (metrics s)" by simp
    with True show ?thesis by simp
  next
    case False
    with b have "metricByKey s k = Some j" by simp
    with a have "j < length (metrics s) \<and> metricKey (metric (metrics s ! j)) = k" by blast
    then show ?thesis by simp
  qed
qed

lemma pushEntry_keyIndexComplete: "keyIndexComplete s \<Longrightarrow> keyIndexComplete (pushEntry s m)"
  unfolding keyIndexComplete_def
proof (intro allI impI)
  fix i
  assume a: "\<forall>i. i < length (metrics s) \<longrightarrow>
        metricByKey s (metricKey (metric (metrics s ! i))) \<noteq> None"
    and b: "i < length (metrics (pushEntry s m))"
  show "metricByKey (pushEntry s m) (metricKey (metric (metrics (pushEntry s m) ! i))) \<noteq> None"
  proof (cases "i < length (metrics s)")
    case True
    with a show ?thesis by simp
  next
    case False
    with b have "i = length (metrics s)" by simp
    then show ?thesis by simp
  qed
qed

lemma wfSet_pushEntry: "wfSet s \<Longrightarrow> wfSet (pushEntry s m)"
  by (simp add: wfSet_def pushEntry_idIndexSound pushEntry_idIndexComplete pushEntry_keyIndexSound
        pushEntry_keyIndexComplete)

lemma setId_simps [simp]:
  "length (metrics (setId s n ident)) = length (metrics s)"
  "metricByKey (setId s n ident) = metricByKey s"
  by (simp_all add: setId_def)

lemma setId_nth:
  "i < length (metrics s) \<Longrightarrow>
   metrics (setId s n ident) ! i =
     (if i = n \<and> \<not> truthy (idE (metrics s ! n)) \<and> truthy ident
      then (metrics s ! n)\<lparr>idE := ident\<rparr> else metrics s ! i)"
  by (simp add: setId_def nth_list_update)

lemma setId_nth_fields [simp]:
  "i < length (metrics s) \<Longrightarrow> metric (metrics (setId s n ident) ! i) = metric (metrics s ! i)"
  "i < length (metrics s) \<Longrightarrow> tag (metrics (setId s n ident) ! i) = tag (metrics s ! i)"
  by (simp_all add: setId_nth)

lemma setId_skip:
  "\<not> (\<not> truthy (idE (metrics s ! n)) \<and> truthy ident) \<Longrightarrow> setId s n ident = s"
  by (auto simp add: setId_def)

lemma setId_byId:
  "\<not> truthy (idE (metrics s ! n)) \<Longrightarrow> truthy ident \<Longrightarrow>
   metricById (setId s n ident) = (metricById s)(the ident \<mapsto> n)"
  by (simp add: setId_def)

lemma truthyE: "truthy x \<Longrightarrow> (\<And>y. x = Some y \<Longrightarrow> y \<noteq> [] \<Longrightarrow> P) \<Longrightarrow> P"
  by (cases x) (auto simp: truthy_def)

lemma setId_idIndexSound:
  assumes snd: "idIndexSound s" and n: "n < length (metrics s)"
  shows "idIndexSound (setId s n ident)"
proof (cases "\<not> truthy (idE (metrics s ! n)) \<and> truthy ident")
  case False
  with snd show ?thesis by (simp add: setId_skip)
next
  case True
  then obtain x where x: "ident = Some x" "x \<noteq> []" by (auto elim: truthyE)
  from True have byId: "metricById (setId s n ident) = (metricById s)(x \<mapsto> n)"
    by (simp add: setId_byId x)
  show ?thesis
    unfolding idIndexSound_def
  proof (intro allI impI)
    fix ident' i
    assume b: "metricById (setId s n ident) ident' = Some i"
    show "i < length (metrics (setId s n ident)) \<and>
          idE (metrics (setId s n ident) ! i) = Some ident' \<and> ident' \<noteq> []"
    proof (cases "ident' = x")
      case True
      with b byId have "i = n" by simp
      with n x True \<open>\<not> truthy (idE (metrics s ! n)) \<and> truthy ident\<close> show ?thesis
        by (simp add: setId_nth)
    next
      case False
      with b byId have "metricById s ident' = Some i" by simp
      with snd have old: "i < length (metrics s)" "idE (metrics s ! i) = Some ident'" "ident' \<noteq> []"
        by (auto simp: idIndexSound_def)
      with True have "i \<noteq> n" by (auto simp: truthy_def)
      with old show ?thesis by (simp add: setId_nth)
    qed
  qed
qed

lemma setId_idIndexComplete:
  assumes cmp: "idIndexComplete s" and n: "n < length (metrics s)"
    and fresh: "\<not> truthy (idE (metrics s ! n)) \<and> truthy ident \<longrightarrow>
                metricById s (the ident) = None"
  shows "idIndexComplete (setId s n ident)"
proof (cases "\<not> truthy (idE (metrics s ! n)) \<and> truthy ident")
  case False
  with cmp show ?thesis by (simp add: setId_skip)
next
  case True
  then obtain x where x: "ident = Some x" "x \<noteq> []" by (auto elim: truthyE)
  from True have byId: "metricById (setId s n ident) = (metricById s)(x \<mapsto> n)"
    by (simp add: setId_byId x)
  from fresh True x have none: "metricById s x = None" by simp
  show ?thesis
    unfolding idIndexComplete_def
  proof (intro allI impI)
    fix i ident'
    assume b: "i < length (metrics (setId s n ident)) \<and>
               idE (metrics (setId s n ident) ! i) = Some ident'"
    then have i: "i < length (metrics s)" by simp
    show "metricById (setId s n ident) ident' = Some i"
    proof (cases "i = n")
      case True
      with b i x \<open>\<not> truthy (idE (metrics s ! n)) \<and> truthy ident\<close> have "ident' = x"
        by (simp add: setId_nth)
      with True byId show ?thesis by simp
    next
      case False
      with b i have "idE (metrics s ! i) = Some ident'" by (simp add: setId_nth)
      with cmp i have old: "metricById s ident' = Some i" by (auto simp: idIndexComplete_def)
      with none have "ident' \<noteq> x" by auto
      with old byId show ?thesis by simp
    qed
  qed
qed

lemma setId_keyIndexSound: "keyIndexSound s \<Longrightarrow> keyIndexSound (setId s n ident)"
  by (auto simp: keyIndexSound_def)

lemma setId_keyIndexComplete: "keyIndexComplete s \<Longrightarrow> keyIndexComplete (setId s n ident)"
  by (auto simp: keyIndexComplete_def)

lemma wfSet_setId:
  "wfSet s \<Longrightarrow> n < length (metrics s) \<Longrightarrow>
   (\<not> truthy (idE (metrics s ! n)) \<and> truthy ident \<longrightarrow> metricById s (the ident) = None) \<Longrightarrow>
   wfSet (setId s n ident)"
  by (simp add: wfSet_def setId_idIndexSound setId_idIndexComplete setId_keyIndexSound
        setId_keyIndexComplete)

lemma findExisting_Some:
  assumes "findExisting s key ident = Inr (Some i)" and "wfSet s"
  shows "i < length (metrics s)" and "metricKey (metric (metrics s ! i)) = key"
    and "\<not> truthy (idE (metrics s ! i)) \<and> truthy ident \<longrightarrow> metricById s (the ident) = None"
proof -
  from assms(2) have snd: "idIndexSound s" and ks: "keyIndexSound s" by (simp_all add: wfSet_def)
  show "i < length (metrics s)"
    using assms(1) snd ks
    by (auto simp: findExisting_def Let_def idIndexSound_def keyIndexSound_def
             split: option.splits if_splits)
  show "metricKey (metric (metrics s ! i)) = key"
    using assms(1) ks
    by (auto simp: findExisting_def Let_def keyIndexSound_def split: option.splits if_splits)
  show "\<not> truthy (idE (metrics s ! i)) \<and> truthy ident \<longrightarrow> metricById s (the ident) = None"
    using assms(1) snd
    by (auto simp: findExisting_def Let_def idIndexSound_def truthy_def
             split: option.splits if_splits)
qed

lemma findExisting_None:
  "findExisting s key ident = Inr None \<Longrightarrow> truthy ident \<Longrightarrow> metricById s (the ident) = None"
  by (auto simp: findExisting_def Let_def split: option.splits if_splits)

lemma wfSet_addEntry:
  assumes "wfSet s" and "addEntry s m tg ident = Inr s'"
  shows "wfSet s'"
proof (cases "findExisting s (metricKey m) ident")
  case (Inl err)
  with assms(2) show ?thesis by (simp add: addEntry_steps)
next
  case (Inr found)
  show ?thesis
  proof (cases found)
    case None
    with Inr assms(2)
    have s': "s' = setTag (setId (pushEntry s m) (length (metrics s)) ident) (length (metrics s)) tg"
      by (simp add: addEntry_steps)
    have "wfSet (setId (pushEntry s m) (length (metrics s)) ident)"
    proof (rule wfSet_setId)
      show "wfSet (pushEntry s m)" using assms(1) by (rule wfSet_pushEntry)
      show "length (metrics s) < length (metrics (pushEntry s m))" by simp
      show "\<not> truthy (idE (metrics (pushEntry s m) ! length (metrics s))) \<and> truthy ident \<longrightarrow>
            metricById (pushEntry s m) (the ident) = None"
        using findExisting_None [of s "metricKey m" ident] Inr None by simp
    qed
    then show ?thesis unfolding s' by (rule wfSet_setTag)
  next
    case (Some i)
    with Inr assms(2) have s': "s' = setTag (setId s i ident) i tg"
      by (simp add: addEntry_steps)
    from Inr Some have fe: "findExisting s (metricKey m) ident = Inr (Some i)" by simp
    have "wfSet (setId s i ident)"
      using assms(1) findExisting_Some(1) [OF fe assms(1)] findExisting_Some(3) [OF fe assms(1)]
      by (rule wfSet_setId)
    then show ?thesis unfolding s' by (rule wfSet_setTag)
  qed
qed

lemma wfSet_addOne_addSubs:
  "wfSet s \<Longrightarrow> addOne s m tg ident = Inr s' \<Longrightarrow> wfSet s'"
  "wfSet s \<Longrightarrow> addSubs s um = Inr s' \<Longrightarrow> wfSet s'"
proof (induction s m tg ident and s um arbitrary: s' and s' rule: addOne_addSubs.induct)
  case (1 s m tg ident)
  from "1.prems"(2) obtain s1 where s1: "addEntry s m tg ident = Inr s1"
    by (cases "addEntry s m tg ident") (simp_all add: addOne.simps)
  have wf1: "wfSet s1" using "1.prems"(1) s1 by (rule wfSet_addEntry)
  show ?case
  proof (cases "mathExpression m")
    case None
    with "1.prems"(2) s1 wf1 show ?thesis by (simp add: addOne.simps)
  next
    case (Some e)
    with "1.prems"(2) s1 have "addSubs s1 (usingMetrics e) = Inr s'" by (simp add: addOne.simps)
    with "1.IH" [OF s1 Some wf1] show ?thesis .
  qed
next
  case (2 s)
  then show ?case by simp
next
  case (3 s subId subMetric rest)
  from "3.prems"(2) obtain s1 where s1: "addOne s subMetric None (Some subId) = Inr s1"
    by (cases "addOne s subMetric None (Some subId)") simp_all
  with "3.prems"(2) have rest: "addSubs s1 rest = Inr s'" by simp
  have "wfSet s1" using "3.IH"(1) [OF "3.prems"(1) s1] .
  from "3.IH"(2) [OF s1 this rest] show ?case .
qed

lemma wfSet_addTopLevel: "wfSet s \<Longrightarrow> addTopLevel s tg ms = Inr s' \<Longrightarrow> wfSet s'"
proof (induction ms arbitrary: s)
  case Nil
  then show ?case by simp
next
  case (Cons m ms)
  from Cons.prems(2) obtain s1 where s1: "addOne s m (Some tg) None = Inr s1"
    by (cases "addOne s m (Some tg) None") simp_all
  with Cons.prems(2) have "addTopLevel s1 tg ms = Inr s'" by simp
  moreover have "wfSet s1" using Cons.prems(1) s1 by (rule wfSet_addOne_addSubs(1))
  ultimately show ?case by (rule Cons.IH [rotated])
qed

text \<open>
  Entries are never removed or replaced, and a tag or identifier that is set stays.
\<close>

definition grows :: "MetricSet \<Rightarrow> MetricSet \<Rightarrow> bool" where
  "grows s s' \<longleftrightarrow>
     length (metrics s) \<le> length (metrics s')
   \<and> (\<forall>i. i < length (metrics s) \<longrightarrow>
         metric (metrics s' ! i) = metric (metrics s ! i)
       \<and> (truthy (tag (metrics s ! i)) \<longrightarrow> tag (metrics s' ! i) = tag (metrics s ! i))
       \<and> (truthy (idE (metrics s ! i)) \<longrightarrow> idE (metrics s' ! i) = idE (metrics s ! i)))"

lemma grows_refl: "grows s s"
  by (simp add: grows_def)

lemma grows_trans:
  assumes a: "grows s s1" and b: "grows s1 s2"
  shows "grows s s2"
  unfolding grows_def
proof (intro conjI allI impI)
  from a b show "length (metrics s) \<le> length (metrics s2)" by (simp add: grows_def)
next
  fix i assume i: "i < length (metrics s)"
  with a have i1: "i < length (metrics s1)" by (simp add: grows_def)
  from a i have m1: "metric (metrics s1 ! i) = metric (metrics s ! i)" by (simp add: grows_def)
  from b i1 have m2: "metric (metrics s2 ! i) = metric (metrics s1 ! i)" by (simp add: grows_def)
  from m1 m2 show "metric (metrics s2 ! i) = metric (metrics s ! i)" by simp
  {
    assume t: "truthy (tag (metrics s ! i))"
    with a i have t1: "tag (metrics s1 ! i) = tag (metrics s ! i)" by (simp add: grows_def)
    with t have "truthy (tag (metrics s1 ! i))" by simp
    with b i1 have "tag (metrics s2 ! i) = tag (metrics s1 ! i)" by (simp add: grows_def)
    with t1 show "tag (metrics s2 ! i) = tag (metrics s ! i)" by simp
  }
  {
    assume t: "truthy (idE (metrics s ! i))"
    with a i have t1: "idE (metrics s1 ! i) = idE (metrics s ! i)" by (simp add: grows_def)
    with t have "truthy (idE (metrics s1 ! i))" by simp
    with b i1 have "idE (metrics s2 ! i) = idE (metrics s1 ! i)" by (simp add: grows_def)
    with t1 show "idE (metrics s2 ! i) = idE (metrics s ! i)" by simp
  }
qed

lemma grows_setTag: "grows s (setTag s n tg)"
  by (auto simp: grows_def setTag_nth)

lemma grows_setId: "grows s (setId s n ident)"
  by (auto simp: grows_def setId_nth)

lemma grows_pushEntry: "grows s (pushEntry s m)"
  by (simp add: grows_def)

lemma grows_addEntry:
  assumes "addEntry s m tg ident = Inr s'"
  shows "grows s s'"
proof (cases "findExisting s (metricKey m) ident")
  case (Inl err)
  with assms show ?thesis by (simp add: addEntry_steps)
next
  case (Inr found)
  show ?thesis
  proof (cases found)
    case None
    with Inr assms
    have s': "s' = setTag (setId (pushEntry s m) (length (metrics s)) ident) (length (metrics s)) tg"
      by (simp add: addEntry_steps)
    show ?thesis unfolding s'
      by (rule grows_trans [OF grows_pushEntry grows_trans [OF grows_setId grows_setTag]])
  next
    case (Some i)
    with Inr assms have s': "s' = setTag (setId s i ident) i tg"
      by (simp add: addEntry_steps)
    show ?thesis unfolding s' by (rule grows_trans [OF grows_setId grows_setTag])
  qed
qed

lemma grows_addOne_addSubs:
  "addOne s m tg ident = Inr s' \<Longrightarrow> grows s s'"
  "addSubs s um = Inr s' \<Longrightarrow> grows s s'"
proof (induction s m tg ident and s um arbitrary: s' and s' rule: addOne_addSubs.induct)
  case (1 s m tg ident)
  from "1.prems" obtain s1 where s1: "addEntry s m tg ident = Inr s1"
    by (cases "addEntry s m tg ident") (simp_all add: addOne.simps)
  then have g1: "grows s s1" by (rule grows_addEntry)
  show ?case
  proof (cases "mathExpression m")
    case None
    with "1.prems" s1 g1 show ?thesis by (simp add: addOne.simps)
  next
    case (Some e)
    with "1.prems" s1 have "addSubs s1 (usingMetrics e) = Inr s'" by (simp add: addOne.simps)
    with "1.IH" [OF s1 Some] have "grows s1 s'" .
    with g1 show ?thesis by (rule grows_trans)
  qed
next
  case (2 s)
  then show ?case by (simp add: grows_refl)
next
  case (3 s subId subMetric rest)
  from "3.prems" obtain s1 where s1: "addOne s subMetric None (Some subId) = Inr s1"
    by (cases "addOne s subMetric None (Some subId)") simp_all
  with "3.prems" have rest: "addSubs s1 rest = Inr s'" by simp
  from "3.IH"(1) [OF s1] "3.IH"(2) [OF s1 rest] show ?case by (rule grows_trans)
qed

lemma grows_addTopLevel: "addTopLevel s tg ms = Inr s' \<Longrightarrow> grows s s'"
proof (induction ms arbitrary: s)
  case Nil
  then show ?case by (simp add: grows_refl)
next
  case (Cons m ms)
  from Cons.prems obtain s1 where s1: "addOne s m (Some tg) None = Inr s1"
    by (cases "addOne s m (Some tg) None") simp_all
  with Cons.prems have "addTopLevel s1 tg ms = Inr s'" by simp
  then have "grows s1 s'" by (rule Cons.IH)
  with grows_addOne_addSubs(1) [OF s1] show ?case by (rule grows_trans)
qed

subsection \<open>Identifiers are distinct\<close>

text \<open>A sequence of \<open>addTopLevel\<close> calls on one set, each with its tag and metrics.\<close>

fun addTopLevels :: "MetricSet \<Rightarrow> (string \<times> IMetric list) list \<Rightarrow> error + MetricSet" where
  "addTopLevels s [] = Inr s"
| "addTopLevels s ((tg, ms) # calls) =
     (case addTopLevel s tg ms of
        Inl err \<Rightarrow> Inl err
      | Inr s' \<Rightarrow> addTopLevels s' calls)"

lemma wfSet_addTopLevels: "wfSet s \<Longrightarrow> addTopLevels s calls = Inr s' \<Longrightarrow> wfSet s'"
proof (induction calls arbitrary: s)
  case Nil
  then show ?case by simp
next
  case (Cons c calls)
  obtain tg ms where c: "c = (tg, ms)" by (cases c)
  from Cons.prems(2) obtain s1 where s1: "addTopLevel s tg ms = Inr s1"
    by (cases "addTopLevel s tg ms") (simp_all add: c)
  with Cons.prems(2) have "addTopLevels s1 calls = Inr s'" by (simp add: c)
  moreover have "wfSet s1" using Cons.prems(1) s1 by (rule wfSet_addTopLevel)
  ultimately show ?case by (rule Cons.IH [rotated])
qed

text \<open>
  Claim C10. After any sequence of \<open>addTopLevel\<close> calls on a fresh set that completes
  without throwing, no two distinct entries carry the same identifier, and the identifier
  index maps an identifier to an entry exactly when that entry carries it.
\<close>

theorem identifiers_distinct:
  assumes "addTopLevels emptySet calls = Inr s"
  shows "(\<forall>i j. i < length (entries s) \<and> j < length (entries s)
            \<and> idE (entries s ! i) \<noteq> None \<and> idE (entries s ! i) = idE (entries s ! j)
            \<longrightarrow> i = j)
       \<and> (\<forall>ident i. metricById s ident = Some i
            \<longleftrightarrow> i < length (entries s) \<and> idE (entries s ! i) = Some ident)"
proof -
  have "wfSet s" using wfSet_empty assms by (rule wfSet_addTopLevels)
  then have snd: "idIndexSound s" and cmp: "idIndexComplete s" by (simp_all add: wfSet_def)
  have index: "metricById s ident = Some i
      \<longleftrightarrow> i < length (entries s) \<and> idE (entries s ! i) = Some ident" for ident i
    using snd cmp unfolding idIndexSound_def idIndexComplete_def entries_def by blast
  have "i = j" if "i < length (entries s)" "j < length (entries s)"
      "idE (entries s ! i) \<noteq> None" "idE (entries s ! i) = idE (entries s ! j)" for i j
  proof -
    from that(3) obtain x where x: "idE (entries s ! i) = Some x" by auto
    with that(1) index have "metricById s x = Some i" by simp
    moreover from x that(2,4) index have "metricById s x = Some j" by simp
    ultimately show ?thesis by simp
  qed
  with index show ?thesis by blast
qed

theorem identifiers_distinct_witness:
  "\<exists>s. addTopLevels emptySet
          [(''left'', [exprOver ''m1 * 2'' [(''m1'', statOf cpuConfig)]]),
           (''right'', [statOf cpuConfig, statOf netConfig])] = Inr s
       \<and> map idE (entries s) = [None, Some ''m1'', None]
       \<and> metricById s ''m1'' = Some 1"
proof -
  let ?calls = "[(''left'', [exprOver ''m1 * 2'' [(''m1'', statOf cpuConfig)]]),
                 (''right'', [statOf cpuConfig, statOf netConfig])]"
  have "\<not> isl (addTopLevels emptySet ?calls)" by code_simp
  then obtain s where s: "addTopLevels emptySet ?calls = Inr s"
    by (cases "addTopLevels emptySet ?calls") simp_all
  have "(case addTopLevels emptySet ?calls of
           Inl err \<Rightarrow> False
         | Inr s \<Rightarrow> map idE (entries s) = [None, Some ''m1'', None])"
    by code_simp
  with s have ids: "map idE (entries s) = [None, Some ''m1'', None]" by simp
  then have len: "length (entries s) = 3" by (metis length_map length_Cons list.size(3) numeral_3_eq_3)
  from ids have "map idE (entries s) ! 1 = Some ''m1''" by simp
  with len have "idE (entries s ! 1) = Some ''m1''" by simp
  with len identifiers_distinct [OF s] have m1: "metricById s ''m1'' = Some 1" by simp
  show ?thesis
  proof (intro exI conjI)
    show "addTopLevels emptySet ?calls = Inr s" by (rule s)
    show "map idE (entries s) = [None, Some ''m1'', None]" by (rule ids)
    show "metricById s ''m1'' = Some 1" by (rule m1)
  qed
qed


lemma findExisting_Some_id:
  assumes "findExisting s key ident = Inr (Some i)" and "wfSet s"
    and "truthy ident" and "truthy (idE (metrics s ! i))"
  shows "idE (metrics s ! i) = ident"
proof -
  from assms(2) have snd: "idIndexSound s" by (simp add: wfSet_def)
  from assms(3) obtain x where x: "ident = Some x" "x \<noteq> []" by (auto elim: truthyE)
  show ?thesis
    using assms(1,4) snd x
    by (auto simp: findExisting_def Let_def idIndexSound_def truthy_def
             split: option.splits if_splits)
qed

lemma addEntry_target:
  assumes wf: "wfSet s" and add: "addEntry s m tg ident = Inr s'"
  shows "\<exists>n. n < length (metrics s') \<and> metricKey (metric (metrics s' ! n)) = metricKey m
           \<and> (truthy tg \<longrightarrow> truthy (tag (metrics s' ! n)))
           \<and> (truthy ident \<longrightarrow> idE (metrics s' ! n) = ident)"
proof (cases "findExisting s (metricKey m) ident")
  case (Inl err)
  with add show ?thesis by (simp add: addEntry_steps)
next
  case (Inr found)
  show ?thesis
  proof (cases found)
    case None
    let ?n = "length (metrics s)"
    from None Inr add
    have s': "s' = setTag (setId (pushEntry s m) ?n ident) ?n tg"
      by (simp add: addEntry_steps)
    have "?n < length (metrics s')" by (simp add: s')
    moreover have "metricKey (metric (metrics s' ! ?n)) = metricKey m" by (simp add: s')
    moreover have "truthy tg \<longrightarrow> truthy (tag (metrics s' ! ?n))"
      by (simp add: s' setTag_nth)
    moreover have "truthy ident \<longrightarrow> idE (metrics s' ! ?n) = ident"
      by (simp add: s' setId_nth truthy_def)
    ultimately show ?thesis by blast
  next
    case (Some i)
    with Inr have fe: "findExisting s (metricKey m) ident = Inr (Some i)" by simp
    from Some Inr add have s': "s' = setTag (setId s i ident) i tg"
      by (simp add: addEntry_steps)
    note i = findExisting_Some(1) [OF fe wf]
    have "i < length (metrics s')" using i by (simp add: s')
    moreover have "metricKey (metric (metrics s' ! i)) = metricKey m"
      using i findExisting_Some(2) [OF fe wf] by (simp add: s')
    moreover have "truthy tg \<longrightarrow> truthy (tag (metrics s' ! i))"
      using i by (simp add: s' setTag_nth)
    moreover have "truthy ident \<longrightarrow> idE (metrics s' ! i) = ident"
      using i findExisting_Some_id [OF fe wf] by (auto simp: s' setId_nth)
    ultimately show ?thesis by blast
  qed
qed

definition hasEntry :: "MetricSet \<Rightarrow> string \<Rightarrow> bool \<Rightarrow> string option \<Rightarrow> bool" where
  "hasEntry s k tagged ident \<longleftrightarrow>
     (\<exists>n. n < length (metrics s) \<and> metricKey (metric (metrics s ! n)) = k
        \<and> (tagged \<longrightarrow> truthy (tag (metrics s ! n)))
        \<and> (truthy ident \<longrightarrow> idE (metrics s ! n) = ident))"

lemma hasEntry_grows:
  assumes "hasEntry s k tagged ident" and g: "grows s s'"
  shows "hasEntry s' k tagged ident"
proof -
  from assms(1) obtain n where n: "n < length (metrics s)"
    and k: "metricKey (metric (metrics s ! n)) = k"
    and t: "tagged \<longrightarrow> truthy (tag (metrics s ! n))"
    and i: "truthy ident \<longrightarrow> idE (metrics s ! n) = ident"
    unfolding hasEntry_def by blast
  from g n have n': "n < length (metrics s')" by (simp add: grows_def)
  from g n k have k': "metricKey (metric (metrics s' ! n)) = k" by (simp add: grows_def)
  from g n t have t': "tagged \<longrightarrow> truthy (tag (metrics s' ! n))" by (auto simp: grows_def)
  from g n i have i': "truthy ident \<longrightarrow> idE (metrics s' ! n) = ident" by (auto simp: grows_def)
  from n' k' t' i' show ?thesis unfolding hasEntry_def by blast
qed

lemma addOne_split:
  assumes "addOne s m tg ident = Inr s'"
  shows "\<exists>s1. addEntry s m tg ident = Inr s1 \<and> grows s1 s'
           \<and> (case mathExpression m of None \<Rightarrow> s' = s1
               | Some e \<Rightarrow> addSubs s1 (usingMetrics e) = Inr s')"
proof -
  from assms obtain s1 where s1: "addEntry s m tg ident = Inr s1"
    by (cases "addEntry s m tg ident") (simp_all add: addOne.simps)
  show ?thesis
  proof (cases "mathExpression m")
    case None
    with assms s1 have "s' = s1" by (simp add: addOne.simps)
    with s1 None show ?thesis by (simp add: grows_refl)
  next
    case (Some e)
    with assms s1 have sub: "addSubs s1 (usingMetrics e) = Inr s'" by (simp add: addOne.simps)
    then have "grows s1 s'" by (rule grows_addOne_addSubs(2))
    with s1 sub Some show ?thesis by simp
  qed
qed

lemma addOne_target:
  assumes wf: "wfSet s" and add: "addOne s m tg ident = Inr s'"
  shows "hasEntry s' (metricKey m) (truthy tg) ident"
proof -
  from addOne_split [OF add] obtain s1 where s1: "addEntry s m tg ident = Inr s1"
    and g: "grows s1 s'" by blast
  from addEntry_target [OF wf s1] have "hasEntry s1 (metricKey m) (truthy tg) ident"
    unfolding hasEntry_def .
  then show ?thesis using g by (rule hasEntry_grows)
qed

lemma addSubs_member:
  "wfSet s \<Longrightarrow> addSubs s um = Inr s' \<Longrightarrow> (i, sub) \<in> set um \<Longrightarrow>
   hasEntry s' (metricKey sub) False (Some i)"
proof (induction um arbitrary: s)
  case Nil
  then show ?case by simp
next
  case (Cons b um)
  obtain j x where b: "b = (j, x)" by (cases b)
  from Cons.prems(2) obtain s1 where s1: "addOne s x None (Some j) = Inr s1"
    by (cases "addOne s x None (Some j)") (simp_all add: b)
  with Cons.prems(2) have rest: "addSubs s1 um = Inr s'" by (simp add: b)
  have wf1: "wfSet s1" using Cons.prems(1) s1 by (rule wfSet_addOne_addSubs(1))
  show ?case
  proof (cases "(i, sub) = (j, x)")
    case True
    from addOne_target [OF Cons.prems(1) s1] have "hasEntry s1 (metricKey x) False (Some j)"
      by (auto simp: hasEntry_def)
    then have "hasEntry s' (metricKey x) False (Some j)"
      using grows_addOne_addSubs(2) [OF rest] by (rule hasEntry_grows)
    with True show ?thesis by simp
  next
    case False
    with Cons.prems(3) have "(i, sub) \<in> set um" by (auto simp: b)
    with Cons.IH [OF wf1 rest] show ?thesis .
  qed
qed

subsection \<open>One entry per key\<close>

text \<open>
  For a key \<open>K\<close> and an identifier \<open>x\<close>: at most one entry has the key \<open>K\<close>, and the
  only identifier it may carry is \<open>x\<close>. The set keeps this as long as every metric with
  key \<open>K\<close> is registered without an identifier or with \<open>x\<close>.
\<close>

definition keyUnique :: "string \<Rightarrow> string \<Rightarrow> MetricSet \<Rightarrow> bool" where
  "keyUnique K x s \<longleftrightarrow>
     (\<forall>i j. i < length (metrics s) \<and> j < length (metrics s)
        \<and> metricKey (metric (metrics s ! i)) = K \<and> metricKey (metric (metrics s ! j)) = K
        \<longrightarrow> i = j)
   \<and> (\<forall>i. i < length (metrics s) \<and> metricKey (metric (metrics s ! i)) = K
        \<and> truthy (idE (metrics s ! i)) \<longrightarrow> idE (metrics s ! i) = Some x)"

lemma keyUnique_empty: "keyUnique K x emptySet"
  by (simp add: keyUnique_def emptySet_def)

lemma keyUnique_merge:
  assumes wf: "wfSet s" and ku: "keyUnique K x s"
    and ok: "metricKey m = K \<longrightarrow> \<not> truthy ident \<or> ident = Some x"
    and fe: "findExisting s (metricKey m) ident = Inr (Some i)"
  shows "keyUnique K x (setTag (setId s i ident) i tg)"
proof -
  let ?s' = "setTag (setId s i ident) i tg"
  note i = findExisting_Some(1) [OF fe wf]
  note ki = findExisting_Some(2) [OF fe wf]
  have len: "length (metrics ?s') = length (metrics s)" by simp
  have met: "metric (metrics ?s' ! j) = metric (metrics s ! j)" if "j < length (metrics s)" for j
    using that by simp
  have ids: "idE (metrics ?s' ! j) =
      (if j = i \<and> \<not> truthy (idE (metrics s ! i)) \<and> truthy ident then ident
       else idE (metrics s ! j))" if "j < length (metrics s)" for j
    using that by (simp add: setId_nth)
  show ?thesis
    unfolding keyUnique_def len
  proof (intro conjI allI impI)
    fix a b
    assume "a < length (metrics s) \<and> b < length (metrics s)
        \<and> metricKey (metric (metrics ?s' ! a)) = K \<and> metricKey (metric (metrics ?s' ! b)) = K"
    with met ku show "a = b" unfolding keyUnique_def by metis
  next
    fix j
    assume h: "j < length (metrics s) \<and> metricKey (metric (metrics ?s' ! j)) = K
        \<and> truthy (idE (metrics ?s' ! j))"
    then have j: "j < length (metrics s)" and kj: "metricKey (metric (metrics s ! j)) = K"
      and tj: "truthy (idE (metrics ?s' ! j))"
      using met by auto
    show "idE (metrics ?s' ! j) = Some x"
    proof (cases "j = i \<and> \<not> truthy (idE (metrics s ! i)) \<and> truthy ident")
      case True
      with kj ki ok have "ident = Some x" by auto
      with True j ids show ?thesis by simp
    next
      case False
      with j ids have same: "idE (metrics ?s' ! j) = idE (metrics s ! j)" by auto
      with tj kj j ku show ?thesis unfolding keyUnique_def by auto
    qed
  qed
qed

lemma keyUnique_new:
  assumes wf: "wfSet s" and ku: "keyUnique K x s"
    and ok: "metricKey m = K \<longrightarrow> \<not> truthy ident \<or> ident = Some x"
    and fe: "findExisting s (metricKey m) ident = Inr None"
  shows "keyUnique K x (setTag (setId (pushEntry s m) (length (metrics s)) ident)
                         (length (metrics s)) tg)"
proof -
  let ?n = "length (metrics s)"
  let ?s' = "setTag (setId (pushEntry s m) ?n ident) ?n tg"
  from wf have cmp: "idIndexComplete s" and ks: "keyIndexSound s" and kc: "keyIndexComplete s"
    by (simp_all add: wfSet_def)
  have len: "length (metrics ?s') = Suc ?n" by simp
  have met: "metric (metrics ?s' ! j) = (if j = ?n then m else metric (metrics s ! j))"
    if "j \<le> ?n" for j
    using that by (cases "j = ?n") simp_all
  have ids: "idE (metrics ?s' ! j) = idE (metrics s ! j)" if "j < ?n" for j
    using that by (simp add: setId_nth)
  have idn: "idE (metrics ?s' ! ?n) = (if truthy ident then ident else None)"
    by (simp add: setId_nth truthy_def)
  have noK: "metricKey (metric (metrics s ! j)) \<noteq> K" if "metricKey m = K" "j < ?n" for j
  proof
    assume kj: "metricKey (metric (metrics s ! j)) = K"
    with kc that(2) obtain l where l: "metricByKey s K = Some l"
      unfolding keyIndexComplete_def by blast
    with ks have l': "l < ?n" "metricKey (metric (metrics s ! l)) = K"
      unfolding keyIndexSound_def by blast+
    from fe l that(1) have t: "truthy (idE (metrics s ! l))" "truthy ident"
      by (auto simp: findExisting_def Let_def split: option.splits if_splits)
    with ok that(1) have ident: "ident = Some x" by simp
    from ku l' t(1) have "idE (metrics s ! l) = Some x" unfolding keyUnique_def by blast
    with cmp l'(1) have "metricById s x = Some l" unfolding idIndexComplete_def by blast
    moreover from findExisting_None [OF fe t(2)] ident have "metricById s x = None" by simp
    ultimately show False by simp
  qed
  show ?thesis
    unfolding keyUnique_def len
  proof (intro conjI allI impI)
    fix a b
    assume h: "a < Suc ?n \<and> b < Suc ?n
        \<and> metricKey (metric (metrics ?s' ! a)) = K \<and> metricKey (metric (metrics ?s' ! b)) = K"
    then have a: "a \<le> ?n" and b: "b \<le> ?n" by simp_all
    show "a = b"
    proof (cases "metricKey m = K")
      case True
      from h met [OF a] noK [OF True, of a] a have "a = ?n" by (cases "a = ?n") auto
      moreover from h met [OF b] noK [OF True, of b] b have "b = ?n" by (cases "b = ?n") auto
      ultimately show ?thesis by simp
    next
      case False
      with h met [OF a] have a': "a < ?n" "metricKey (metric (metrics s ! a)) = K"
        using a by (cases "a = ?n"; auto)+
      from False h met [OF b] have b': "b < ?n" "metricKey (metric (metrics s ! b)) = K"
        using b by (cases "b = ?n"; auto)+
      from ku a' b' show ?thesis unfolding keyUnique_def by blast
    qed
  next
    fix j
    assume h: "j < Suc ?n \<and> metricKey (metric (metrics ?s' ! j)) = K
        \<and> truthy (idE (metrics ?s' ! j))"
    then have j: "j \<le> ?n" by simp
    show "idE (metrics ?s' ! j) = Some x"
    proof (cases "j = ?n")
      case True
      with h met [OF j] have "metricKey m = K" by simp
      moreover from h True idn have "truthy ident" by (auto simp: truthy_def split: if_splits)
      ultimately have "ident = Some x" using ok by simp
      with True idn \<open>truthy ident\<close> show ?thesis by simp
    next
      case False
      with j have j': "j < ?n" by simp
      with h met [OF j] ids [OF j'] False
      have "metricKey (metric (metrics s ! j)) = K" "truthy (idE (metrics s ! j))" by auto
      with ku j' have "idE (metrics s ! j) = Some x" unfolding keyUnique_def by blast
      with ids [OF j'] show ?thesis by simp
    qed
  qed
qed

lemma keyUnique_addEntry:
  assumes wf: "wfSet s" and ku: "keyUnique K x s"
    and ok: "metricKey m = K \<longrightarrow> \<not> truthy ident \<or> ident = Some x"
    and add: "addEntry s m tg ident = Inr s'"
  shows "keyUnique K x s'"
proof (cases "findExisting s (metricKey m) ident")
  case (Inl err)
  with add show ?thesis by (simp add: addEntry_steps)
next
  case (Inr found)
  show ?thesis
  proof (cases found)
    case None
    with Inr have fe: "findExisting s (metricKey m) ident = Inr None" by simp
    with add have "s' = setTag (setId (pushEntry s m) (length (metrics s)) ident)
                         (length (metrics s)) tg"
      by (simp add: addEntry_steps)
    with keyUnique_new [OF wf ku ok fe, of tg] show ?thesis by simp
  next
    case (Some i)
    with Inr have fe: "findExisting s (metricKey m) ident = Inr (Some i)" by simp
    with add have "s' = setTag (setId s i ident) i tg" by (simp add: addEntry_steps)
    with keyUnique_merge [OF wf ku ok fe, of tg] show ?thesis by simp
  qed
qed

definition bindsOnly :: "string \<Rightarrow> string \<Rightarrow> (string \<times> IMetric) list \<Rightarrow> bool" where
  "bindsOnly K x bs = (\<forall>(i, sub) \<in> set bs. metricKey sub = K \<longrightarrow> i = x)"

lemma bindsOnly_Cons:
  "bindsOnly K x ((i, sub) # bs) \<longleftrightarrow> (metricKey sub = K \<longrightarrow> i = x) \<and> bindsOnly K x bs"
  by (simp add: bindsOnly_def)

lemma bindsOnly_append:
  "bindsOnly K x (as @ bs) \<longleftrightarrow> bindsOnly K x as \<and> bindsOnly K x bs"
  by (auto simp: bindsOnly_def)

lemma keyUnique_addOne_addSubs:
  "wfSet s \<Longrightarrow> keyUnique K x s \<Longrightarrow> (metricKey m = K \<longrightarrow> \<not> truthy ident \<or> ident = Some x) \<Longrightarrow>
   bindsOnly K x (bindings m) \<Longrightarrow> addOne s m tg ident = Inr s' \<Longrightarrow> keyUnique K x s'"
  "wfSet s \<Longrightarrow> keyUnique K x s \<Longrightarrow> bindsOnly K x (subBindings um) \<Longrightarrow>
   addSubs s um = Inr s' \<Longrightarrow> keyUnique K x s'"
proof (induction s m tg ident and s um arbitrary: s' and s' rule: addOne_addSubs.induct)
  case (1 s m tg ident)
  from addOne_split [OF "1.prems"(5)] obtain s1 where s1: "addEntry s m tg ident = Inr s1"
    and rest: "case mathExpression m of None \<Rightarrow> s' = s1
               | Some e \<Rightarrow> addSubs s1 (usingMetrics e) = Inr s'"
    by blast
  have wf1: "wfSet s1" using "1.prems"(1) s1 by (rule wfSet_addEntry)
  have ku1: "keyUnique K x s1"
    using "1.prems"(1) "1.prems"(2) "1.prems"(3) s1 by (rule keyUnique_addEntry)
  show ?case
  proof (cases "mathExpression m")
    case None
    with rest ku1 show ?thesis by simp
  next
    case (Some e)
    with rest have sub: "addSubs s1 (usingMetrics e) = Inr s'" by simp
    from Some "1.prems"(4) have "bindsOnly K x (subBindings (usingMetrics e))"
      by (simp add: bindings.simps)
    with "1.IH" [OF s1 Some wf1 ku1 _ sub] show ?thesis .
  qed
next
  case (2 s)
  then show ?case by simp
next
  case (3 s subId subMetric rest)
  from "3.prems"(4) obtain s1 where s1: "addOne s subMetric None (Some subId) = Inr s1"
    by (cases "addOne s subMetric None (Some subId)") simp_all
  with "3.prems"(4) have rest: "addSubs s1 rest = Inr s'" by simp
  from "3.prems"(3) have ok: "metricKey subMetric = K \<longrightarrow> \<not> truthy (Some subId) \<or> Some subId = Some x"
    and b1: "bindsOnly K x (bindings subMetric)" and b2: "bindsOnly K x (subBindings rest)"
    by (simp_all add: bindsOnly_Cons bindsOnly_append)
  have wf1: "wfSet s1" using "3.prems"(1) s1 by (rule wfSet_addOne_addSubs(1))
  have ku1: "keyUnique K x s1" using "3.IH"(1) [OF "3.prems"(1) "3.prems"(2) ok b1 s1] .
  from "3.IH"(2) [OF s1 wf1 ku1 b2 rest] show ?case .
qed

lemma hasEntry_unique:
  assumes ku: "keyUnique K x s" and t: "hasEntry s K True None"
    and i: "hasEntry s K False (Some y)" and y: "y \<noteq> []"
  shows "\<exists>n. n < length (metrics s)
           \<and> (\<forall>j. j < length (metrics s) \<longrightarrow> (metricKey (metric (metrics s ! j)) = K \<longleftrightarrow> j = n))
           \<and> truthy (tag (metrics s ! n)) \<and> idE (metrics s ! n) = Some y"
proof -
  from t obtain n where n: "n < length (metrics s)" "metricKey (metric (metrics s ! n)) = K"
    "truthy (tag (metrics s ! n))"
    unfolding hasEntry_def by blast
  from i y obtain l where l: "l < length (metrics s)" "metricKey (metric (metrics s ! l)) = K"
    "idE (metrics s ! l) = Some y"
    unfolding hasEntry_def by (auto simp: truthy_def)
  from ku n l have "l = n" unfolding keyUnique_def by blast
  with l have idn: "idE (metrics s ! n) = Some y" by simp
  have "\<forall>j. j < length (metrics s) \<longrightarrow> (metricKey (metric (metrics s ! j)) = K \<longleftrightarrow> j = n)"
    using ku n unfolding keyUnique_def by blast
  with n idn show ?thesis by blast
qed

lemma addOne_binding:
  assumes wf: "wfSet s" and add: "addOne s E tg ident = Inr s'"
    and E: "mathExpression E = Some e" and b: "(i, sub) \<in> set (usingMetrics e)"
  shows "hasEntry s' (metricKey sub) False (Some i)"
proof -
  from addOne_split [OF add] E obtain s1 where s1: "addEntry s E tg ident = Inr s1"
    and rest: "addSubs s1 (usingMetrics e) = Inr s'"
    by auto
  have "wfSet s1" using wf s1 by (rule wfSet_addEntry)
  then show ?thesis using rest b by (rule addSubs_member)
qed

section \<open>Deduplication through expressions\<close>

text \<open>
  Claim C1, amended. Let \<open>E\<close> be a math expression whose \<open>usingMetrics\<close> binds \<open>m1\<close> to a
  metric with the key of \<open>M\<close>, and let no binding in the trees of \<open>E\<close> and \<open>M\<close> give a
  metric with that key another identifier. If \<open>E\<close> and \<open>M\<close> are registered at top level on
  a fresh set, in either order, \<open>M\<close> with a non-empty tag, and neither call throws, then
  exactly one entry has the key of \<open>M\<close>; it has a tag and the identifier \<open>m1\<close>.
\<close>

theorem dedup_via_expression:
  assumes E: "mathExpression E = Some e" and m1: "(''m1'', M') \<in> set (usingMetrics e)"
    and same: "metricKey M' = metricKey M"
    and only: "\<forall>(i, sub) \<in> set (bindings E @ bindings M). metricKey sub = metricKey M \<longrightarrow> i = ''m1''"
    and tM: "tM \<noteq> []"
    and calls: "calls = [(tE, [E]), (tM, [M])] \<or> calls = [(tM, [M]), (tE, [E])]"
    and run: "addTopLevels emptySet calls = Inr s"
  shows "\<exists>n. n < length (entries s)
           \<and> (\<forall>j. j < length (entries s) \<longrightarrow>
                 (metricKey (metric (entries s ! j)) = metricKey M \<longleftrightarrow> j = n))
           \<and> truthy (tag (entries s ! n)) \<and> idE (entries s ! n) = Some ''m1''"
proof -
  let ?K = "metricKey M"
  from only have bE: "bindsOnly ?K ''m1'' (bindings E)" and bM: "bindsOnly ?K ''m1'' (bindings M)"
    by (auto simp: bindsOnly_def)
  have tagM: "truthy (Some tM)" using tM by (simp add: truthy_def)
  have ok: "metricKey A = ?K \<longrightarrow> \<not> truthy None \<or> None = Some ''m1''" for A
    by (simp add: truthy_def)
  have "keyUnique ?K ''m1'' s \<and> hasEntry s ?K True None \<and> hasEntry s ?K False (Some ''m1'')"
    using calls
  proof
    assume "calls = [(tE, [E]), (tM, [M])]"
    with run obtain s1 where s1: "addOne emptySet E (Some tE) None = Inr s1"
      and s2: "addOne s1 M (Some tM) None = Inr s"
      by (auto split: sum.splits)
    have wf1: "wfSet s1" using wfSet_empty s1 by (rule wfSet_addOne_addSubs(1))
    have ku1: "keyUnique ?K ''m1'' s1"
      using wfSet_empty keyUnique_empty ok bE s1 by (rule keyUnique_addOne_addSubs(1))
    have ku2: "keyUnique ?K ''m1'' s"
      using wf1 ku1 ok bM s2 by (rule keyUnique_addOne_addSubs(1))
    have "hasEntry s1 ?K False (Some ''m1'')"
      using addOne_binding [OF wfSet_empty s1 E m1] same by simp
    then have i: "hasEntry s ?K False (Some ''m1'')"
      using grows_addOne_addSubs(1) [OF s2] by (rule hasEntry_grows)
    from addOne_target [OF wf1 s2] tagM have "hasEntry s ?K True None" by simp
    with ku2 i show ?thesis by simp
  next
    assume "calls = [(tM, [M]), (tE, [E])]"
    with run obtain s1 where s1: "addOne emptySet M (Some tM) None = Inr s1"
      and s2: "addOne s1 E (Some tE) None = Inr s"
      by (auto split: sum.splits)
    have wf1: "wfSet s1" using wfSet_empty s1 by (rule wfSet_addOne_addSubs(1))
    have ku1: "keyUnique ?K ''m1'' s1"
      using wfSet_empty keyUnique_empty ok bM s1 by (rule keyUnique_addOne_addSubs(1))
    have ku2: "keyUnique ?K ''m1'' s"
      using wf1 ku1 ok bE s2 by (rule keyUnique_addOne_addSubs(1))
    from addOne_target [OF wfSet_empty s1] tagM have "hasEntry s1 ?K True None" by simp
    then have t: "hasEntry s ?K True None"
      using grows_addOne_addSubs(1) [OF s2] by (rule hasEntry_grows)
    have "hasEntry s ?K False (Some ''m1'')"
      using addOne_binding [OF wf1 s2 E m1] same by simp
    with ku2 t show ?thesis by simp
  qed
  then have "keyUnique ?K ''m1'' s" and "hasEntry s ?K True None"
    and "hasEntry s ?K False (Some ''m1'')"
    by simp_all
  then show ?thesis
    unfolding entries_def by (rule hasEntry_unique) simp
qed

definition twiceBound :: IMetric where
  "twiceBound = exprOver ''m1 + m2'' [(''m1'', statOf cpuConfig), (''m2'', statOf cpuConfig)]"

definition cpuTimesTwo :: IMetric where
  "cpuTimesTwo = exprOver ''m1 * 2'' [(''m1'', statOf cpuConfig)]"

definition redCpu :: IMetric where
  "redCpu = Metric (Some cpuConfig) None [(''color'', JStr ''#ff0000'')] ''red cpu''"

text \<open>
  Claim C1 as stated fails. An expression that binds both \<open>m1\<close> and \<open>m2\<close> to the same
  stat ref, registered with that stat ref at top level, gives two entries with the key of
  the stat ref: the one with identifier \<open>m1\<close> has no tag, the one with \<open>m2\<close> takes the
  tag. And a metric registered under the empty tag stays without a tag.
\<close>

theorem dedup_via_expression_counterexample:
  "(case addTopLevels emptySet [(''left'', [twiceBound]), (''right'', [statOf cpuConfig])] of
      Inl err \<Rightarrow> False
    | Inr s \<Rightarrow>
        map (\<lambda>en. (metricKey (metric en) = metricKey (statOf cpuConfig), tag en, idE en))
            (entries s)
        = [(False, Some ''left'', None), (True, None, Some ''m1''),
           (True, Some ''right'', Some ''m2'')])
   \<and> (case addTopLevels emptySet [([], [statOf cpuConfig]), (''left'', [cpuTimesTwo])] of
      Inl err \<Rightarrow> False
    | Inr s \<Rightarrow>
        map (\<lambda>en. (metricKey (metric en) = metricKey (statOf cpuConfig), tag en, idE en))
            (entries s)
        = [(True, None, Some ''m1''), (False, Some ''left'', None)])"
  by code_simp

text \<open>
  The theorem at an expression over \<open>m1\<close> and a structurally equal stat ref with its own
  rendering properties.
\<close>

theorem dedup_via_expression_witness:
  "\<exists>s n. addTopLevels emptySet [(''left'', [cpuTimesTwo]), (''right'', [redCpu])] = Inr s
      \<and> n < length (entries s)
      \<and> metricKey (metric (entries s ! n)) = metricKey redCpu
      \<and> truthy (tag (entries s ! n)) \<and> idE (entries s ! n) = Some ''m1''"
proof -
  let ?calls = "[(''left'', [cpuTimesTwo]), (''right'', [redCpu])]"
  have E: "mathExpression cpuTimesTwo
             = Some (MetricExpressionConfig ''m1 * 2'' [(''m1'', statOf cpuConfig)])"
    by (simp add: cpuTimesTwo_def exprOver_def)
  have m1: "(''m1'', statOf cpuConfig)
       \<in> set (usingMetrics (MetricExpressionConfig ''m1 * 2'' [(''m1'', statOf cpuConfig)]))"
    by simp
  have same: "metricKey (statOf cpuConfig) = metricKey redCpu" by code_simp
  have only: "\<forall>(i, sub) \<in> set (bindings cpuTimesTwo @ bindings redCpu).
                 metricKey sub = metricKey redCpu \<longrightarrow> i = ''m1''"
    by code_simp
  have tM: "''right'' \<noteq> []" by simp
  have "\<not> isl (addTopLevels emptySet ?calls)" by code_simp
  then obtain s where s: "addTopLevels emptySet ?calls = Inr s"
    by (cases "addTopLevels emptySet ?calls") simp_all
  from dedup_via_expression [OF E m1 same only tM _ s, of "''left''"]
  obtain n where n: "n < length (entries s)"
    and u: "\<forall>j. j < length (entries s) \<longrightarrow>
              (metricKey (metric (entries s ! j)) = metricKey redCpu \<longleftrightarrow> j = n)"
    and t: "truthy (tag (entries s ! n))" and i: "idE (entries s ! n) = Some ''m1''"
    by blast
  from u n have k: "metricKey (metric (entries s ! n)) = metricKey redCpu" by blast
  show ?thesis
  proof (intro exI conjI)
    show "addTopLevels emptySet ?calls = Inr s" by (rule s)
    show "n < length (entries s)" by (rule n)
    show "metricKey (metric (entries s ! n)) = metricKey redCpu" by (rule k)
    show "truthy (tag (entries s ! n))" by (rule t)
    show "idE (entries s ! n) = Some ''m1''" by (rule i)
  qed
qed

section \<open>The first tag wins\<close>

lemma grows_tag:
  assumes "grows s s'" and "i < length (entries s)" and "truthy (tag (entries s ! i))"
  shows "i < length (entries s') \<and> tag (entries s' ! i) = tag (entries s ! i)"
  using assms unfolding grows_def entries_def by auto

lemma addEntry_empty:
  "addEntry emptySet m tg None =
     Inr \<lparr>metrics = [\<lparr>metric = m, tag = (if truthy tg then tg else None), idE = None\<rparr>],
          metricById = Map.empty, metricByKey = [metricKey m \<mapsto> 0]\<rparr>"
  by (simp add: addEntry_def findExisting_def emptySet_def Let_def truthy_def)

text \<open>
  Claim C6, amended. Registering two metrics without sub-metrics and with the same key
  at top level on a fresh set, the first under a non-empty tag, gives exactly one entry;
  it holds the first metric and the first tag. And a tag that is set on an entry is
  neither changed nor removed by a later \<open>addOne\<close> (with any tag and identifier, so also
  one made while expanding an expression) or \<open>addTopLevel\<close>.
\<close>

theorem first_tag_wins:
  "(t1 \<noteq> [] \<and> mathExpression m1 = None \<and> mathExpression m2 = None
      \<and> metricKey m1 = metricKey m2 \<longrightarrow>
      (\<exists>s1 s2. addTopLevel emptySet t1 [m1] = Inr s1 \<and> addTopLevel s1 t2 [m2] = Inr s2
         \<and> entries s2 = [\<lparr>metric = m1, tag = Some t1, idE = None\<rparr>]))
   \<and> (\<forall>s' i. addOne s m tg ident = Inr s' \<and> i < length (entries s)
         \<and> truthy (tag (entries s ! i)) \<longrightarrow>
         i < length (entries s') \<and> tag (entries s' ! i) = tag (entries s ! i))
   \<and> (\<forall>s' i. addTopLevel s t ms = Inr s' \<and> i < length (entries s)
         \<and> truthy (tag (entries s ! i)) \<longrightarrow>
         i < length (entries s') \<and> tag (entries s' ! i) = tag (entries s ! i))"
proof (intro conjI allI impI)
  assume h: "t1 \<noteq> [] \<and> mathExpression m1 = None \<and> mathExpression m2 = None
      \<and> metricKey m1 = metricKey m2"
  let ?s1 = "\<lparr>metrics = [\<lparr>metric = m1, tag = Some t1, idE = None\<rparr>],
          metricById = Map.empty, metricByKey = [metricKey m1 \<mapsto> 0]\<rparr>"
  from h have a1: "addTopLevel emptySet t1 [m1] = Inr ?s1"
    by (simp add: addOne.simps addEntry_empty truthy_def)
  from h have "addEntry ?s1 m2 (Some t2) None = Inr ?s1"
    by (simp add: addEntry_def findExisting_def Let_def truthy_def)
  with h have a2: "addTopLevel ?s1 t2 [m2] = Inr ?s1"
    by (simp add: addOne.simps)
  have "entries ?s1 = [\<lparr>metric = m1, tag = Some t1, idE = None\<rparr>]" by (simp add: entries_def)
  with a1 a2 show "\<exists>s1 s2. addTopLevel emptySet t1 [m1] = Inr s1 \<and> addTopLevel s1 t2 [m2] = Inr s2
         \<and> entries s2 = [\<lparr>metric = m1, tag = Some t1, idE = None\<rparr>]"
    by blast
next
  fix s' i
  assume h: "addOne s m tg ident = Inr s' \<and> i < length (entries s) \<and> truthy (tag (entries s ! i))"
  then have "grows s s'" using grows_addOne_addSubs(1) by blast
  with h show "i < length (entries s')" and "tag (entries s' ! i) = tag (entries s ! i)"
    using grows_tag by blast+
next
  fix s' i
  assume h: "addTopLevel s t ms = Inr s' \<and> i < length (entries s) \<and> truthy (tag (entries s ! i))"
  then have "grows s s'" using grows_addTopLevel by blast
  with h show "i < length (entries s')" and "tag (entries s' ! i) = tag (entries s ! i)"
    using grows_tag by blast+
qed

text \<open>
  Claim C6 as stated fails when the first tag is the empty string: \<open>addOne\<close> tests the tag
  for truthiness, so the entry stays untagged and takes the second tag.
\<close>

theorem first_tag_wins_counterexample:
  "(case addTopLevels emptySet [([], [statOf cpuConfig]), (''right'', [statOf cpuConfig])] of
      Inl err \<Rightarrow> False
    | Inr s \<Rightarrow> entries s = [\<lparr>metric = statOf cpuConfig, tag = Some ''right'', idE = None\<rparr>])"
  by code_simp

text \<open>The theorem at concrete metrics and tags.\<close>

theorem first_tag_wins_witness:
  "''left'' \<noteq> [] \<and> mathExpression (statOf cpuConfig) = None \<and> mathExpression redCpu = None
   \<and> metricKey (statOf cpuConfig) = metricKey redCpu
   \<and> (\<exists>s1 s2. addTopLevel emptySet ''left'' [statOf cpuConfig] = Inr s1
          \<and> addTopLevel s1 ''right'' [redCpu] = Inr s2
          \<and> entries s2 = [\<lparr>metric = statOf cpuConfig, tag = Some ''left'', idE = None\<rparr>])
   \<and> (\<exists>s s'. addTopLevel emptySet ''left'' [statOf cpuConfig] = Inr s
          \<and> addTopLevel s ''right'' [cpuTimesTwo] = Inr s'
          \<and> 0 < length (entries s) \<and> truthy (tag (entries s ! 0))
          \<and> tag (entries s' ! 0) = tag (entries s ! 0))"
proof -
  have h1: "''left'' \<noteq> []" by simp
  have h2: "mathExpression (statOf cpuConfig) = None" by (simp add: statOf_def)
  have h3: "mathExpression redCpu = None" by (simp add: redCpu_def)
  have h4: "metricKey (statOf cpuConfig) = metricKey redCpu" by code_simp
  from first_tag_wins [of "''left''" "statOf cpuConfig" redCpu "''right''"] h1 h2 h3 h4
  have p1: "\<exists>s1 s2. addTopLevel emptySet ''left'' [statOf cpuConfig] = Inr s1
          \<and> addTopLevel s1 ''right'' [redCpu] = Inr s2
          \<and> entries s2 = [\<lparr>metric = statOf cpuConfig, tag = Some ''left'', idE = None\<rparr>]"
    by blast
  then obtain s where s: "addTopLevel emptySet ''left'' [statOf cpuConfig] = Inr s" by blast
  have "(case addTopLevel emptySet ''left'' [statOf cpuConfig] of
           Inl err \<Rightarrow> False
         | Inr s \<Rightarrow> 0 < length (entries s) \<and> truthy (tag (entries s ! 0))
                    \<and> \<not> isl (addTopLevel s ''right'' [cpuTimesTwo]))"
    by code_simp
  with s have l: "0 < length (entries s)" and t: "truthy (tag (entries s ! 0))"
    and "\<not> isl (addTopLevel s ''right'' [cpuTimesTwo])"
    by simp_all
  then obtain s' where s': "addTopLevel s ''right'' [cpuTimesTwo] = Inr s'"
    by (cases "addTopLevel s ''right'' [cpuTimesTwo]") simp_all
  from first_tag_wins [where s = s and t = "''right''" and ms = "[cpuTimesTwo]"] s' l t
  have keep: "tag (entries s' ! 0) = tag (entries s ! 0)" by blast
  have p2: "\<exists>s s'. addTopLevel emptySet ''left'' [statOf cpuConfig] = Inr s
          \<and> addTopLevel s ''right'' [cpuTimesTwo] = Inr s'
          \<and> 0 < length (entries s) \<and> truthy (tag (entries s ! 0))
          \<and> tag (entries s' ! 0) = tag (entries s ! 0)"
  proof (intro exI conjI)
    show "addTopLevel emptySet ''left'' [statOf cpuConfig] = Inr s" by (rule s)
    show "addTopLevel s ''right'' [cpuTimesTwo] = Inr s'" by (rule s')
    show "0 < length (entries s)" by (rule l)
    show "truthy (tag (entries s ! 0))" by (rule t)
    show "tag (entries s' ! 0) = tag (entries s ! 0)" by (rule keep)
  qed
  from h1 h2 h3 h4 p1 p2 show ?thesis by (intro conjI)
qed

section \<open>Merging into an entry or adding a separate one\<close>

text \<open>The entry after a merge: a missing identifier or tag is filled in.\<close>

definition mergeInto :: "MetricEntry \<Rightarrow> string option \<Rightarrow> string option \<Rightarrow> MetricEntry" where
  "mergeInto en tg ident =
     en\<lparr>idE := (if \<not> truthy (idE en) \<and> truthy ident then ident else idE en),
        tag := (if \<not> truthy (tag en) \<and> truthy tg then tg else tag en)\<rparr>"

lemma merge_metrics:
  "i < length (metrics s) \<Longrightarrow>
   metrics (setTag (setId s i ident) i tg) = (metrics s)[i := mergeInto (metrics s ! i) tg ident]"
  by (auto simp: setTag_def setId_def mergeInto_def list_update_same_conv)

lemma new_metrics:
  "metrics (setTag (setId (pushEntry s m) (length (metrics s)) ident) (length (metrics s)) tg)
     = metrics s @ [\<lparr>metric = m, tag = (if truthy tg then tg else None),
                     idE = (if truthy ident then ident else None)\<rparr>]"
  by (auto simp: setTag_def setId_def pushEntry_def nth_append truthy_def)

text \<open>
  Claim C5, amended. In a set that satisfies the invariant, let an entry be indexed under
  the key of the metric being registered. If an identifier is supplied, nothing is
  indexed under it, and the entry found under the key has an identifier, a new entry is
  appended. If the supplied identifier is indexed to an entry with another key, the
  defensive error is thrown. In every other case the registration merges into an existing
  entry with the key of the metric, and no entry is added.
\<close>

theorem addEntry_merge_or_separate:
  assumes wf: "wfSet s" and key: "metricByKey s (metricKey m) = Some j"
  shows "if truthy ident \<and> metricById s (the ident) = None \<and> truthy (idE (metrics s ! j))
         then \<exists>s'. addEntry s m tg ident = Inr s'
                \<and> metrics s' = metrics s @ [\<lparr>metric = m, tag = (if truthy tg then tg else None),
                                                idE = ident\<rparr>]
         else if truthy ident
                 \<and> (\<exists>i. metricById s (the ident) = Some i
                        \<and> metricKey (metric (metrics s ! i)) \<noteq> metricKey m)
         then addEntry s m tg ident = Inl CantHappen
         else \<exists>s' i. addEntry s m tg ident = Inr s' \<and> i < length (metrics s)
                \<and> metricKey (metric (metrics s ! i)) = metricKey m
                \<and> metrics s' = (metrics s)[i := mergeInto (metrics s ! i) tg ident]"
proof (cases "findExisting s (metricKey m) ident")
  case (Inl err)
  then have "truthy ident \<and> (\<exists>i. metricById s (the ident) = Some i
                \<and> metricKey (metric (metrics s ! i)) \<noteq> metricKey m)"
    and "err = CantHappen"
    using key by (auto simp: findExisting_def Let_def split: option.splits if_splits)
  with Inl show ?thesis by (auto simp: addEntry_steps)
next
  case (Inr found)
  show ?thesis
  proof (cases found)
    case None
    with Inr have fe: "findExisting s (metricKey m) ident = Inr None" by simp
    with key have c: "truthy ident" "metricById s (the ident) = None" "truthy (idE (metrics s ! j))"
      by (auto simp: findExisting_def Let_def split: option.splits if_splits)
    from fe have "addEntry s m tg ident =
        Inr (setTag (setId (pushEntry s m) (length (metrics s)) ident) (length (metrics s)) tg)"
      by (simp add: addEntry_steps)
    with c show ?thesis by (simp add: new_metrics)
  next
    case (Some i)
    with Inr have fe: "findExisting s (metricKey m) ident = Inr (Some i)" by simp
    with key have c: "\<not> (truthy ident \<and> metricById s (the ident) = None
                          \<and> truthy (idE (metrics s ! j)))"
      and d: "\<not> (truthy ident \<and> (\<exists>i. metricById s (the ident) = Some i
                        \<and> metricKey (metric (metrics s ! i)) \<noteq> metricKey m))"
      by (auto simp: findExisting_def Let_def split: option.splits if_splits)
    from fe have "addEntry s m tg ident = Inr (setTag (setId s i ident) i tg)"
      by (simp add: addEntry_steps)
    moreover note findExisting_Some(1,2) [OF fe wf]
    ultimately have "\<exists>s' i. addEntry s m tg ident = Inr s' \<and> i < length (metrics s)
                \<and> metricKey (metric (metrics s ! i)) = metricKey m
                \<and> metrics s' = (metrics s)[i := mergeInto (metrics s ! i) tg ident]"
      using merge_metrics by blast
    then show ?thesis unfolding if_not_P [OF c] if_not_P [OF d] .
  qed
qed

text \<open>
  Claim C5 as stated fails: with an identifier supplied that is bound to a metric of
  another key, and the entry found under the key carrying no identifier, the claim says
  merge and the code throws.
\<close>

theorem addEntry_merge_or_separate_counterexample:
  "(case addTopLevel emptySet ''left'' [cpuTimesTwo, statOf netConfig] of
      Inl err \<Rightarrow> False
    | Inr s \<Rightarrow>
        metricByKey s (metricKey (statOf netConfig)) = Some 2
        \<and> idE (metrics s ! 2) = None
        \<and> map_sum (\<lambda>err. err) entries (addOne s (statOf netConfig) None (Some ''m1''))
            = Inl CantHappen)"
  by code_simp

text \<open>The theorem at a set built from one expression.\<close>

theorem addEntry_merge_or_separate_witness:
  "\<exists>s s1 s2. addTopLevel emptySet ''left'' [cpuTimesTwo] = Inr s \<and> wfSet s
      \<and> metricByKey s (metricKey redCpu) = Some 1
      \<and> addEntry s redCpu None (Some ''m2'') = Inr s1
      \<and> metrics s1 = metrics s @ [\<lparr>metric = redCpu, tag = None, idE = Some ''m2''\<rparr>]
      \<and> addEntry s redCpu (Some ''right'') None = Inr s2
      \<and> length (metrics s2) = length (metrics s)"
proof -
  have "\<not> isl (addTopLevel emptySet ''left'' [cpuTimesTwo])" by code_simp
  then obtain s where s: "addTopLevel emptySet ''left'' [cpuTimesTwo] = Inr s"
    by (cases "addTopLevel emptySet ''left'' [cpuTimesTwo]") simp_all
  have wf: "wfSet s" using wfSet_empty s by (rule wfSet_addTopLevel)
  have "(case addTopLevel emptySet ''left'' [cpuTimesTwo] of
           Inl err \<Rightarrow> False
         | Inr s \<Rightarrow> metricByKey s (metricKey redCpu) = Some 1
                    \<and> metricById s ''m2'' = None \<and> truthy (idE (metrics s ! 1)))"
    by code_simp
  with s have key: "metricByKey s (metricKey redCpu) = Some 1"
    and fresh: "metricById s ''m2'' = None" and has: "truthy (idE (metrics s ! 1))"
    by simp_all
  from addEntry_merge_or_separate [OF wf key, of "Some ''m2''" None] fresh has
  obtain s1 where s1: "addEntry s redCpu None (Some ''m2'') = Inr s1"
    and m1: "metrics s1 = metrics s @ [\<lparr>metric = redCpu, tag = None, idE = Some ''m2''\<rparr>]"
    by (auto simp: truthy_def)
  from addEntry_merge_or_separate [OF wf key, of None "Some ''right''"]
  obtain s2 where s2: "addEntry s redCpu (Some ''right'') None = Inr s2"
    and m2: "length (metrics s2) = length (metrics s)"
    by (auto simp: truthy_def)
  show ?thesis
  proof (intro exI conjI)
    show "addTopLevel emptySet ''left'' [cpuTimesTwo] = Inr s" by (rule s)
    show "wfSet s" by (rule wf)
    show "metricByKey s (metricKey redCpu) = Some 1" by (rule key)
    show "addEntry s redCpu None (Some ''m2'') = Inr s1" by (rule s1)
    show "metrics s1 = metrics s @ [\<lparr>metric = redCpu, tag = None, idE = Some ''m2''\<rparr>]"
      by (rule m1)
    show "addEntry s redCpu (Some ''right'') None = Inr s2" by (rule s2)
    show "length (metrics s2) = length (metrics s)" by (rule m2)
  qed
qed


section \<open>Rendering a row\<close>

text \<open>The options objects of a token row (a row has at most one, at its end).\<close>

fun optionsOf :: "token list \<Rightarrow> (string \<times> jsval) list" where
  "optionsOf [] = []"
| "optionsOf (TStr x # row) = optionsOf row"
| "optionsOf (TOpts opts # row) = opts @ optionsOf row"

lemma optionsOf_strings: "optionsOf (concat (map (\<lambda>(n, v). [TStr n, TStr v]) ds) @ row) = optionsOf row"
  by (induction ds) auto

lemma optionsOf_withStat: "optionsOf (fst (withStat stat o0) @ row) = optionsOf row"
  by (simp add: withStat_def Let_def optionsOf_strings)

lemma map_of_dropUndefined:
  "distinct (map fst al) \<Longrightarrow>
   map_of (dropUndefined al) k =
     (case map_of al k of Some v \<Rightarrow> if v = JUndefined then None else Some v | None \<Rightarrow> None)"
proof (induction al)
  case Nil
  show ?case by (simp add: dropUndefined_def)
next
  case (Cons a al)
  obtain k' v' where a: "a = (k', v')" by (cases a)
  from Cons.prems have d: "distinct (map fst al)" and n: "k' \<notin> fst ` set al" by (simp_all add: a)
  from n have "map_of al k' = None" by (simp add: map_of_eq_None_iff)
  with Cons.IH [OF d] show ?case
    by (auto simp: a dropUndefined_def split: option.splits)
qed

text \<open>
  The options object \<open>metricGraphJson\<close> builds for a metric whose dispatch chose \<open>d\<close>,
  after \<open>dropUndefined\<close>, and the tokens before it.
\<close>

definition finalOptions ::
  "IMetric \<Rightarrow> MetricStatConfig + IMetric MetricExpressionConfig \<Rightarrow> string option \<Rightarrow> string option
     \<Rightarrow> (string \<times> jsval) list" where
  "finalOptions m d yAxis ident =
     (let o0 = (case d of Inl stat \<Rightarrow> snd (withStat stat (renderingProperties m))
                        | Inr expr \<Rightarrow> snd (withExpression expr (renderingProperties m)));
          o1 = (if \<not> truthy yAxis then AList.update ''visible'' (JBool False) o0 else o0);
          o2 = (if yAxis \<noteq> Some ''left''
                then AList.update ''yAxis''
                       (case yAxis of None \<Rightarrow> JUndefined | Some y \<Rightarrow> JStr y) o1
                else o1);
          o3 = (if truthy ident then AList.update ''id'' (JStr (the ident)) o2 else o2);
          o4 = (if map_of o3 ''visible'' \<noteq> Some (JBool False)
                   \<and> js_truthy (map_of o3 ''expression'')
                   \<and> \<not> js_truthy (map_of o3 ''label'')
                then AList.update ''label'' (JStr (toString m)) o3 else o3)
      in dropUndefined o4)"

definition rowTokens :: "MetricStatConfig + IMetric MetricExpressionConfig \<Rightarrow> token list" where
  "rowTokens d = (case d of Inl stat \<Rightarrow> fst (withStat stat []) | Inr expr \<Rightarrow> [])"

lemma fst_withStat: "fst (withStat stat o0) = fst (withStat stat [])"
  by (simp add: withStat_def Let_def)

lemma metricGraphJson_row:
  "dispatchMetric m = Inr d \<Longrightarrow>
   metricGraphJson m yAxis ident =
     Inr (if finalOptions m d yAxis ident \<noteq> []
          then rowTokens d @ [TOpts (finalOptions m d yAxis ident)] else rowTokens d)"
  by (cases d)
     (simp_all add: metricGraphJson_def finalOptions_def rowTokens_def Let_def case_prod_unfold
        fst_withStat [of _ "renderingProperties m"] withExpression_def
        split del: if_split cong del: if_weak_cong)


lemma optionsOf_rowTokens: "optionsOf (rowTokens d @ row) = optionsOf row"
proof (cases d)
  case (Inl stat)
  have "optionsOf (fst (withStat stat []) @ row) = optionsOf row"
    by (rule optionsOf_withStat)
  with Inl show ?thesis by (simp add: rowTokens_def)
next
  case (Inr e)
  then show ?thesis by (simp add: rowTokens_def)
qed

lemma optionsOf_row:
  "optionsOf (if opts \<noteq> [] then rowTokens d @ [TOpts opts] else rowTokens d) = opts"
  using optionsOf_rowTokens [of d "[TOpts opts]"] optionsOf_rowTokens [of d "[]"]
  by (cases "opts = []") simp_all

lemma distinct_withStat:
  "distinct (map fst o0) \<Longrightarrow> distinct (map fst (snd (withStat stat o0)))"
  by (simp add: withStat_def Let_def distinct_update split: option.splits)

lemma withStat_period:
  "map_of (snd (withStat stat o0)) ''period'' =
     (case period stat of
        Some p \<Rightarrow> if p \<noteq> 300 then Some (JNum p) else map_of o0 ''period''
      | None \<Rightarrow> map_of o0 ''period'')"
  by (simp add: withStat_def Let_def update_conv' split: option.splits)

lemma withStat_stat:
  "map_of (snd (withStat stat o0)) ''stat'' =
     (if truthy (statistic stat) \<and> statistic stat \<noteq> Some ''Average''
      then Some (JStr (the (statistic stat))) else map_of o0 ''stat'')"
  by (simp add: withStat_def Let_def update_conv' split: option.splits)

lemma withStat_other:
  "k \<noteq> ''accountId'' \<Longrightarrow> k \<noteq> ''region'' \<Longrightarrow> k \<noteq> ''period'' \<Longrightarrow> k \<noteq> ''stat'' \<Longrightarrow>
   map_of (snd (withStat stat o0)) k = map_of o0 k"
  by (simp add: withStat_def Let_def update_conv' split: option.splits)

definition handlerOptions ::
  "IMetric \<Rightarrow> MetricStatConfig + IMetric MetricExpressionConfig \<Rightarrow> (string \<times> jsval) list" where
  "handlerOptions m d =
     (case d of Inl stat \<Rightarrow> snd (withStat stat (renderingProperties m))
              | Inr expr \<Rightarrow> snd (withExpression expr (renderingProperties m)))"

lemma distinct_handlerOptions:
  "distinct (map fst (renderingProperties m)) \<Longrightarrow> distinct (map fst (handlerOptions m d))"
  by (cases d) (simp_all add: handlerOptions_def distinct_withStat withExpression_def distinct_update)

lemma finalOptions_map:
  assumes dist: "distinct (map fst (renderingProperties m))"
    and k: "k \<noteq> ''id''" "k \<noteq> ''label''"
  shows "map_of (finalOptions m d yAxis ident) k =
     (case (if k = ''yAxis'' \<and> yAxis \<noteq> Some ''left''
            then Some (case yAxis of None \<Rightarrow> JUndefined | Some y \<Rightarrow> JStr y)
            else if k = ''visible'' \<and> \<not> truthy yAxis then Some (JBool False)
            else map_of (handlerOptions m d) k) of
        Some v \<Rightarrow> if v = JUndefined then None else Some v
      | None \<Rightarrow> None)"
proof -
  define o0 where "o0 = handlerOptions m d"
  define o1 where "o1 = (if \<not> truthy yAxis then AList.update ''visible'' (JBool False) o0 else o0)"
  define o2 where "o2 = (if yAxis \<noteq> Some ''left''
                then AList.update ''yAxis''
                       (case yAxis of None \<Rightarrow> JUndefined | Some y \<Rightarrow> JStr y) o1
                else o1)"
  define o3 where "o3 = (if truthy ident then AList.update ''id'' (JStr (the ident)) o2 else o2)"
  define o4 where "o4 = (if map_of o3 ''visible'' \<noteq> Some (JBool False)
                   \<and> js_truthy (map_of o3 ''expression'')
                   \<and> \<not> js_truthy (map_of o3 ''label'')
                then AList.update ''label'' (JStr (toString m)) o3 else o3)"
  have fin: "finalOptions m d yAxis ident = dropUndefined o4"
    unfolding finalOptions_def o4_def o3_def o2_def o1_def o0_def handlerOptions_def Let_def ..
  have d0: "distinct (map fst o0)" unfolding o0_def using dist by (rule distinct_handlerOptions)
  have d1: "distinct (map fst o1)" using d0 by (simp add: o1_def distinct_update)
  have d2: "distinct (map fst o2)" using d1 by (simp add: o2_def distinct_update)
  have d3: "distinct (map fst o3)" using d2 by (simp add: o3_def distinct_update)
  have d4: "distinct (map fst o4)" using d3 by (simp add: o4_def distinct_update)
  have m4: "map_of o4 k = map_of o3 k" using k by (simp add: o4_def update_conv')
  have m3: "map_of o3 k = map_of o2 k" using k by (simp add: o3_def update_conv')
  have m2: "map_of o2 k = (if k = ''yAxis'' \<and> yAxis \<noteq> Some ''left''
            then Some (case yAxis of None \<Rightarrow> JUndefined | Some y \<Rightarrow> JStr y)
            else map_of o1 k)"
    by (simp add: o2_def update_conv')
  have m1: "map_of o1 k = (if k = ''visible'' \<and> \<not> truthy yAxis then Some (JBool False)
            else map_of o0 k)"
    by (simp add: o1_def update_conv')
  show ?thesis
    unfolding fin map_of_dropUndefined [OF d4] m4 m3 m2 m1 o0_def ..
qed

lemma handlerOptions_plain:
  assumes "map_of (renderingProperties m) k = None"
    and "k \<noteq> ''accountId''" "k \<noteq> ''region''" "k \<noteq> ''period''" "k \<noteq> ''stat''"
    and "k \<noteq> ''expression''"
  shows "map_of (handlerOptions m d) k = None"
  using assms
  by (cases d) (simp_all add: handlerOptions_def withStat_other withExpression_def update_conv')

text \<open>
  Claim C7, amended. For a well-formed metric whose rendering properties are an object
  (no repeated key) that does not itself define \<open>period\<close>, \<open>stat\<close>, \<open>visible\<close> or
  \<open>yAxis\<close>: the row has \<open>period\<close> exactly when the stat ref has a period other than 300
  seconds, and then it is that number; it has \<open>stat\<close> exactly when the statistic is a
  non-empty string other than \<open>Average\<close>; with no tag it has \<open>visible: false\<close> and no
  \<open>yAxis\<close>; with the tag \<open>right\<close> it has \<open>yAxis: right\<close> and no \<open>visible\<close>; with the tag
  \<open>left\<close> it has neither.
\<close>

theorem row_options:
  assumes wf: "dispatchMetric m = Inr d"
    and dist: "distinct (map fst (renderingProperties m))"
    and plain: "\<forall>k \<in> {''period'', ''stat'', ''visible'', ''yAxis''}.
                  map_of (renderingProperties m) k = None"
  shows "\<exists>row. metricGraphJson m tg ident = Inr row
     \<and> (\<forall>stat. d = Inl stat \<longrightarrow>
          map_of (optionsOf row) ''period''
            = (case period stat of
                 Some p \<Rightarrow> if p \<noteq> 300 then Some (JNum p) else None
               | None \<Rightarrow> None)
        \<and> map_of (optionsOf row) ''stat''
            = (if truthy (statistic stat) \<and> statistic stat \<noteq> Some ''Average''
               then Some (JStr (the (statistic stat))) else None))
     \<and> (tg = None \<longrightarrow>
          map_of (optionsOf row) ''visible'' = Some (JBool False)
        \<and> map_of (optionsOf row) ''yAxis'' = None)
     \<and> (tg = Some ''right'' \<longrightarrow>
          map_of (optionsOf row) ''yAxis'' = Some (JStr ''right'')
        \<and> map_of (optionsOf row) ''visible'' = None)
     \<and> (tg = Some ''left'' \<longrightarrow>
          map_of (optionsOf row) ''visible'' = None
        \<and> map_of (optionsOf row) ''yAxis'' = None)"
proof -
  let ?F = "finalOptions m d tg ident"
  define row where "row = (if ?F \<noteq> [] then rowTokens d @ [TOpts ?F] else rowTokens d)"
  have row: "metricGraphJson m tg ident = Inr row"
    unfolding row_def using wf by (rule metricGraphJson_row)
  have opts: "optionsOf row = ?F" unfolding row_def by (rule optionsOf_row)
  from plain have pv: "map_of (renderingProperties m) ''visible'' = None"
    and py: "map_of (renderingProperties m) ''yAxis'' = None"
    and pp: "map_of (renderingProperties m) ''period'' = None"
    and ps: "map_of (renderingProperties m) ''stat'' = None"
    by simp_all
  have hv: "map_of (handlerOptions m d) ''visible'' = None"
    using pv by (rule handlerOptions_plain) simp_all
  have hy: "map_of (handlerOptions m d) ''yAxis'' = None"
    using py by (rule handlerOptions_plain) simp_all
  have vis: "map_of (optionsOf row) ''visible'' = (if \<not> truthy tg then Some (JBool False) else None)"
    unfolding opts by (simp add: finalOptions_map [OF dist] hv)
  have yax: "map_of (optionsOf row) ''yAxis'' =
      (case tg of None \<Rightarrow> None | Some y \<Rightarrow> if y = ''left'' then None else Some (JStr y))"
    unfolding opts by (simp add: finalOptions_map [OF dist] hy split: option.splits)
  have per: "map_of (optionsOf row) ''period'' =
      (case period stat of Some p \<Rightarrow> if p \<noteq> 300 then Some (JNum p) else None | None \<Rightarrow> None)"
    if "d = Inl stat" for stat
    unfolding opts using that pp
    by (simp add: finalOptions_map [OF dist] handlerOptions_def withStat_period split: option.splits)
  have sta: "map_of (optionsOf row) ''stat'' =
      (if truthy (statistic stat) \<and> statistic stat \<noteq> Some ''Average''
       then Some (JStr (the (statistic stat))) else None)"
    if "d = Inl stat" for stat
    unfolding opts using that ps
    by (simp add: finalOptions_map [OF dist] handlerOptions_def withStat_stat)
  show ?thesis
  proof (intro exI [of _ row] conjI allI impI)
    show "metricGraphJson m tg ident = Inr row" by (rule row)
  next
    fix stat assume "d = Inl stat"
    then show "map_of (optionsOf row) ''period''
            = (case period stat of
                 Some p \<Rightarrow> if p \<noteq> 300 then Some (JNum p) else None
               | None \<Rightarrow> None)"
      by (rule per)
  next
    fix stat assume "d = Inl stat"
    then show "map_of (optionsOf row) ''stat''
            = (if truthy (statistic stat) \<and> statistic stat \<noteq> Some ''Average''
               then Some (JStr (the (statistic stat))) else None)"
      by (rule sta)
  next
    assume "tg = None"
    then show "map_of (optionsOf row) ''visible'' = Some (JBool False)"
      and "map_of (optionsOf row) ''yAxis'' = None"
      by (simp_all add: vis yax truthy_def)
  next
    assume "tg = Some ''right''"
    then show "map_of (optionsOf row) ''yAxis'' = Some (JStr ''right'')"
      and "map_of (optionsOf row) ''visible'' = None"
      by (simp_all add: vis yax truthy_def)
  next
    assume "tg = Some ''left''"
    then show "map_of (optionsOf row) ''visible'' = None"
      and "map_of (optionsOf row) ''yAxis'' = None"
      by (simp_all add: vis yax truthy_def)
  qed
qed

text \<open>
  Claim C7 as stated fails: the options start as a copy of the rendering properties, so
  a metric with the rendering property \<open>visible: false\<close> tagged \<open>right\<close> keeps the
  \<open>visible\<close> key, and one with the rendering property \<open>yAxis\<close> tagged \<open>left\<close> keeps
  \<open>yAxis\<close>; and a statistic that is the empty string is present and not \<open>Average\<close>, yet
  gives no \<open>stat\<close> key.
\<close>

theorem row_options_counterexample:
  "metricGraphJson (Metric (Some cpuConfig) None [(''visible'', JBool False)] ''cpu'')
       (Some ''right'') None
     = Inr [TStr ''AWS/EC2'', TStr ''CPUUtilization'', TStr ''InstanceId'', TStr ''i-1'',
            TOpts [(''visible'', JBool False), (''yAxis'', JStr ''right'')]]
   \<and> metricGraphJson (Metric (Some cpuConfig) None [(''yAxis'', JStr ''right'')] ''cpu'')
       (Some ''left'') None
     = Inr [TStr ''AWS/EC2'', TStr ''CPUUtilization'', TStr ''InstanceId'', TStr ''i-1'',
            TOpts [(''yAxis'', JStr ''right'')]]
   \<and> metricGraphJson (statOf (cpuConfig\<lparr>statistic := Some ''''\<rparr>)) (Some ''left'') None
     = Inr [TStr ''AWS/EC2'', TStr ''CPUUtilization'', TStr ''InstanceId'', TStr ''i-1'']"
  by code_simp

text \<open>The theorem at a stat ref with period 60 and statistic \<open>Sum\<close>, tagged \<open>right\<close>.\<close>

theorem row_options_witness:
  "\<exists>row. metricGraphJson (statOf (cpuConfig\<lparr>period := Some 60, statistic := Some ''Sum''\<rparr>))
            (Some ''right'') None = Inr row
     \<and> map_of (optionsOf row) ''period'' = Some (JNum 60)
     \<and> map_of (optionsOf row) ''stat'' = Some (JStr ''Sum'')
     \<and> map_of (optionsOf row) ''yAxis'' = Some (JStr ''right'')
     \<and> map_of (optionsOf row) ''visible'' = None"
proof -
  let ?st = "cpuConfig\<lparr>period := Some 60, statistic := Some ''Sum''\<rparr>"
  have wf: "dispatchMetric (statOf ?st) = Inr (Inl ?st)"
    by (simp add: dispatchMetric_def statOf_def)
  have dist: "distinct (map fst (renderingProperties (statOf ?st)))" by (simp add: statOf_def)
  have plain: "\<forall>k \<in> {''period'', ''stat'', ''visible'', ''yAxis''}.
                  map_of (renderingProperties (statOf ?st)) k = None"
    by (simp add: statOf_def)
  from row_options [OF wf dist plain, of "Some ''right''" None]
  obtain row where "metricGraphJson (statOf ?st) (Some ''right'') None = Inr row"
    and "map_of (optionsOf row) ''period'' = Some (JNum 60)"
    and "map_of (optionsOf row) ''stat'' = Some (JStr ''Sum'')"
    and "map_of (optionsOf row) ''yAxis'' = Some (JStr ''right'')"
    and "map_of (optionsOf row) ''visible'' = None"
    by (auto simp: truthy_def cpuConfig_def)
  then show ?thesis by blast
qed

section \<open>The rows of two axes\<close>

lemma update_mem: "(k, v) \<in> set (AList.update k v al)"
  by (induction al) auto

lemma update_keep: "(k, v) \<in> set al \<Longrightarrow> k \<noteq> k' \<Longrightarrow> (k, v) \<in> set (AList.update k' v' al)"
  by (induction al) auto

lemma finalOptions_right:
  "(''yAxis'', JStr ''right'') \<in> set (finalOptions m d (Some ''right'') None)"
proof -
  define o2 where "o2 = AList.update ''yAxis'' (JStr ''right'') (handlerOptions m d)"
  define o4 where "o4 = (if map_of o2 ''visible'' \<noteq> Some (JBool False)
                   \<and> js_truthy (map_of o2 ''expression'')
                   \<and> \<not> js_truthy (map_of o2 ''label'')
                then AList.update ''label'' (JStr (toString m)) o2 else o2)"
  have fin: "finalOptions m d (Some ''right'') None = dropUndefined o4"
    unfolding finalOptions_def o4_def o2_def handlerOptions_def
    by (simp add: Let_def truthy_def split del: if_split cong del: if_weak_cong)
  have "(''yAxis'', JStr ''right'') \<in> set o2" unfolding o2_def by (rule update_mem)
  then have "(''yAxis'', JStr ''right'') \<in> set o4"
    unfolding o4_def by (simp add: update_keep)
  then show ?thesis unfolding fin by (simp add: dropUndefined_def)
qed

lemma finalOptions_default:
  "finalOptions (Metric (Some cpuConfig) None [] ts) (Inl cpuConfig) (Some ''left'') None = []"
  by (simp add: finalOptions_def withStat_def cpuConfig_def truthy_def dropUndefined_def
        js_truthy_def Let_def)

lemma rowTokens_cpu:
  "rowTokens (Inl cpuConfig)
     = [TStr ''AWS/EC2'', TStr ''CPUUtilization'', TStr ''InstanceId'', TStr ''i-1'']"
  by (simp add: rowTokens_def withStat_def cpuConfig_def Let_def)

text \<open>
  Claim C8, amended. For \<open>statA\<close> the stat ref of the claim (no rendering properties) and
  \<open>statB\<close> any stat ref whose key differs from that of \<open>statA\<close>,
  \<open>allMetricsGraphJson([statA], [statB])\<close> returns exactly two rows: the first is the four
  strings of \<open>statA\<close> with no options object, the second is the namespace, name and
  dimensions of \<open>statB\<close> followed by an options object that contains \<open>yAxis: right\<close>.
\<close>

theorem two_axes_rows:
  assumes B: "dispatchMetric statB = Inr (Inl st)"
    and differ: "metricKey statB \<noteq> metricKey (Metric (Some cpuConfig) None [] ts)"
  shows "\<exists>opts. allMetricsGraphJson [Metric (Some cpuConfig) None [] ts] [statB]
           = Inr [[TStr ''AWS/EC2'', TStr ''CPUUtilization'', TStr ''InstanceId'', TStr ''i-1''],
                  fst (withStat st []) @ [TOpts opts]]
         \<and> (''yAxis'', JStr ''right'') \<in> set opts"
proof -
  let ?A = "Metric (Some cpuConfig) None [] ts"
  let ?sA = "\<lparr>metrics = [\<lparr>metric = ?A, tag = Some ''left'', idE = None\<rparr>],
          metricById = Map.empty, metricByKey = [metricKey ?A \<mapsto> 0]\<rparr>"
  let ?sB = "\<lparr>metrics = [\<lparr>metric = ?A, tag = Some ''left'', idE = None\<rparr>,
                         \<lparr>metric = statB, tag = Some ''right'', idE = None\<rparr>],
          metricById = Map.empty,
          metricByKey = [metricKey ?A \<mapsto> 0, metricKey statB \<mapsto> 1]\<rparr>"
  let ?F = "finalOptions statB (Inl st) (Some ''right'') None"
  from B have noExpr: "mathExpression statB = None"
    by (auto simp: dispatchMetric_def split: option.splits)
  have a1: "addTopLevel emptySet ''left'' [?A] = Inr ?sA"
    by (simp add: addOne.simps addEntry_empty truthy_def)
  from differ have "addEntry ?sA statB (Some ''right'') None = Inr ?sB"
    by (simp add: addEntry_def findExisting_def Let_def truthy_def)
  with noExpr have a2: "addTopLevel ?sA ''right'' [statB] = Inr ?sB"
    by (simp add: addOne.simps)
  have dA: "dispatchMetric ?A = Inr (Inl cpuConfig)" by (simp add: dispatchMetric_def)
  have rA: "metricGraphJson ?A (Some ''left'') None
              = Inr [TStr ''AWS/EC2'', TStr ''CPUUtilization'', TStr ''InstanceId'', TStr ''i-1'']"
    by (simp add: metricGraphJson_row [OF dA] finalOptions_default rowTokens_cpu)
  have mem: "(''yAxis'', JStr ''right'') \<in> set ?F" by (rule finalOptions_right)
  then have ne: "?F \<noteq> []" by auto
  have rB: "metricGraphJson statB (Some ''right'') None = Inr (fst (withStat st []) @ [TOpts ?F])"
    using ne by (simp add: metricGraphJson_row [OF B] rowTokens_def)
  have "allMetricsGraphJson [?A] [statB] = renderAll (entries ?sB)"
    unfolding allMetricsGraphJson_def a1 sum.case a2 ..
  also have "\<dots> = Inr [[TStr ''AWS/EC2'', TStr ''CPUUtilization'', TStr ''InstanceId'', TStr ''i-1''],
                  fst (withStat st []) @ [TOpts ?F]]"
    by (simp add: entries_def rA rB)
  finally show ?thesis using mem by blast
qed

text \<open>
  Claim C8 as stated fails: an empty options object is not emitted (line 73), so the
  first row has no \<open>{}\<close> at its end; and a \<open>statB\<close> with the key of \<open>statA\<close> is merged
  into its entry, which gives one row.
\<close>

theorem two_axes_rows_counterexample:
  "allMetricsGraphJson [statOf cpuConfig] [statOf netConfig]
     = Inr [[TStr ''AWS/EC2'', TStr ''CPUUtilization'', TStr ''InstanceId'', TStr ''i-1''],
            [TStr ''AWS/EC2'', TStr ''NetworkIn'', TOpts [(''yAxis'', JStr ''right'')]]]
   \<and> allMetricsGraphJson [statOf cpuConfig] [statOf netConfig]
     \<noteq> Inr [[TStr ''AWS/EC2'', TStr ''CPUUtilization'', TStr ''InstanceId'', TStr ''i-1'',
             TOpts []],
            [TStr ''AWS/EC2'', TStr ''NetworkIn'', TOpts [(''yAxis'', JStr ''right'')]]]
   \<and> allMetricsGraphJson [statOf cpuConfig] [redCpu]
     = Inr [[TStr ''AWS/EC2'', TStr ''CPUUtilization'', TStr ''InstanceId'', TStr ''i-1'']]"
  by code_simp

text \<open>The theorem at a stat ref with period 60.\<close>

theorem two_axes_rows_witness:
  "\<exists>opts. allMetricsGraphJson [statOf cpuConfig]
             [statOf (netConfig\<lparr>period := Some 60\<rparr>)]
           = Inr [[TStr ''AWS/EC2'', TStr ''CPUUtilization'', TStr ''InstanceId'', TStr ''i-1''],
                  [TStr ''AWS/EC2'', TStr ''NetworkIn'', TOpts opts]]
         \<and> (''yAxis'', JStr ''right'') \<in> set opts"
proof -
  let ?st = "netConfig\<lparr>period := Some 60\<rparr>"
  have B: "dispatchMetric (statOf ?st) = Inr (Inl ?st)"
    by (simp add: dispatchMetric_def statOf_def)
  have differ: "metricKey (statOf ?st) \<noteq> metricKey (Metric (Some cpuConfig) None [] ''CPUUtilization'')"
    by code_simp
  have A: "statOf cpuConfig = Metric (Some cpuConfig) None [] ''CPUUtilization''"
    by (simp add: statOf_def cpuConfig_def)
  have tokens: "fst (withStat ?st []) = [TStr ''AWS/EC2'', TStr ''NetworkIn'']"
    by (simp add: withStat_def netConfig_def Let_def)
  from two_axes_rows [OF B differ] show ?thesis unfolding A tokens by simp
qed


section \<open>The structural key depends on the structure only\<close>

text \<open>
  \<open>usingMetrics\<close> is a JavaScript object, so no identifier is bound twice in it:
  \<open>wfIds\<close> says so for a metric and every metric below it.
\<close>

function wfIds :: "IMetric \<Rightarrow> bool" where
  "wfIds (Metric st ex rp ts) =
     (case ex of
        None \<Rightarrow> True
      | Some e \<Rightarrow> distinct (map fst (usingMetrics e))
                  \<and> (\<forall>p \<in> set (usingMetrics e). wfIds (snd p)))"
  by pat_completeness auto

termination wfIds
proof (relation "measure size")
  show "wf (measure (size :: IMetric \<Rightarrow> nat))" by simp
next
  fix st :: "MetricStatConfig option" and ex :: "IMetric MetricExpressionConfig option"
    and e rp ts p
  assume "ex = Some e" and "p \<in> set (usingMetrics e)"
  then have "size (snd p) < size (Metric st ex rp ts)"
    by (cases e; cases p) (auto dest: size_usingMetrics_entry)
  then show "(snd p, Metric st ex rp ts) \<in> measure size"
    by (simp only: in_measure)
qed

text \<open>
  The structural content of a metric: its configuration without the rendering properties
  and the string form, at every level, with the bindings of \<open>usingMetrics\<close> in the order
  of their identifiers (the order in which an object lists its keys is not part of its
  content).
\<close>

function content :: "IMetric \<Rightarrow> IMetric" where
  "content (Metric st ex rp ts) =
     Metric st
       (case ex of
          None \<Rightarrow> None
        | Some e \<Rightarrow>
            Some (MetricExpressionConfig (expression e)
                    (map (\<lambda>p. (fst p, content (snd p))) (sort_key fst (usingMetrics e)))))
       [] []"
  by pat_completeness auto

termination content
proof (relation "measure size")
  show "wf (measure (size :: IMetric \<Rightarrow> nat))" by simp
next
  fix st :: "MetricStatConfig option" and ex :: "IMetric MetricExpressionConfig option"
    and e rp ts p
  assume "ex = Some e" and "p \<in> set (sort_key fst (usingMetrics e))"
  then have "size (snd p) < size (Metric st ex rp ts)"
    by (cases e; cases p) (auto dest: size_usingMetrics_entry)
  then show "(snd p, Metric st ex rp ts) \<in> measure size"
    by (simp only: in_measure)
qed

lemma map_fst_insort_key: "map fst (insort_key fst x xs) = insort (fst x) (map fst xs)"
  by (induction xs) simp_all

lemma map_fst_sort_key: "map fst (sort_key fst xs) = sort (map fst xs)"
  by (induction xs) (simp_all add: map_fst_insort_key)

lemma subkeys_by_entries:
  assumes "distinct (map fst um)"
  shows "concat (map (\<lambda>i. case map_of um i of Some sub \<Rightarrow> [i, f sub] | None \<Rightarrow> [])
                     (sort (map fst um)))
         = concat (map (\<lambda>p. [fst p, f (snd p)]) (sort_key fst um))"
proof -
  have "map (\<lambda>i. case map_of um i of Some sub \<Rightarrow> [i, f sub] | None \<Rightarrow> []) (sort (map fst um))
        = map (\<lambda>p. case map_of um (fst p) of Some sub \<Rightarrow> [fst p, f sub] | None \<Rightarrow> [])
              (sort_key fst um)"
    by (simp add: map_fst_sort_key [symmetric] comp_def)
  also have "\<dots> = map (\<lambda>p. [fst p, f (snd p)]) (sort_key fst um)"
  proof (rule map_cong [OF refl])
    fix p assume "p \<in> set (sort_key fst um)"
    then have "(fst p, snd p) \<in> set um" by simp
    with assms have "map_of um (fst p) = Some (snd p)" by (rule map_of_is_SomeI)
    then show "(case map_of um (fst p) of Some sub \<Rightarrow> [fst p, f sub] | None \<Rightarrow> [])
               = [fst p, f (snd p)]"
      by simp
  qed
  finally show ?thesis by simp
qed

lemma metricKey_expression:
  assumes "mathExpression m = Some e" and "distinct (map fst (usingMetrics e))"
  shows "metricKey m =
     join ''|''
       ((expression e #
         concat (map (\<lambda>p. [fst p, metricKey (snd p)]) (sort_key fst (usingMetrics e))))
        @ (case metricStat m of None \<Rightarrow> [] | Some s \<Rightarrow> statParts s))"
  using assms by (cases m) (simp add: subkeys_by_entries)

lemma metricKey_content: "wfIds m \<Longrightarrow> metricKey (content m) = metricKey m"
proof (induction m rule: wfIds.induct)
  case (1 st ex rp ts)
  show ?case
  proof (cases ex)
    case None
    then show ?thesis by simp
  next
    case (Some e)
    let ?um = "usingMetrics e"
    let ?L = "sort_key fst ?um"
    let ?um' = "map (\<lambda>p. (fst p, content (snd p))) ?L"
    let ?e' = "MetricExpressionConfig (expression e) ?um'"
    from "1.prems" Some have dist: "distinct (map fst ?um)"
      and sub: "\<And>p. p \<in> set ?um \<Longrightarrow> wfIds (snd p)"
      by simp_all
    have keys': "map fst ?um' = sort (map fst ?um)"
      by (simp add: comp_def map_fst_sort_key)
    have dist': "distinct (map fst (usingMetrics ?e'))"
      using dist by (simp add: keys' del: map_map)
    have "sorted (map fst ?um')" unfolding keys' by simp
    then have sorted': "sort_key fst ?um' = ?um'" by (rule sort_key_id_if_sorted)
    have ih: "metricKey (content (snd p)) = metricKey (snd p)" if "p \<in> set ?L" for p
    proof -
      from that have p: "p \<in> set ?um" by simp
      from "1.IH" [OF Some p sub [OF p]] show ?thesis .
    qed
    have cm: "content (Metric st ex rp ts) = Metric st (Some ?e') [] []"
      using Some by simp
    have "metricKey (content (Metric st ex rp ts)) =
        join ''|''
          ((expression e #
            concat (map (\<lambda>p. [fst p, metricKey (snd p)]) (sort_key fst ?um')))
           @ (case st of None \<Rightarrow> [] | Some s \<Rightarrow> statParts s))"
      unfolding cm using metricKey_expression [of "Metric st (Some ?e') [] []" ?e', OF _ dist']
      by simp
    also have "map (\<lambda>p. [fst p, metricKey (snd p)]) (sort_key fst ?um')
               = map (\<lambda>p. [fst p, metricKey (snd p)]) ?L"
      unfolding sorted' using ih by (simp add: comp_def)
    also have "join ''|''
          ((expression e # concat (map (\<lambda>p. [fst p, metricKey (snd p)]) ?L))
           @ (case st of None \<Rightarrow> [] | Some s \<Rightarrow> statParts s))
        = metricKey (Metric st ex rp ts)"
      using metricKey_expression [of "Metric st ex rp ts" e, OF _ dist] Some by simp
    finally show ?thesis .
  qed
qed

text \<open>
  \<open>metricKey\<close> with its cache (lines 220--223 and 256--258 of the source). The source stores
  the key on the metric object under a symbol private to the module; the model keeps the
  objects that carry the property, each with the stored key, in a list that is passed
  through, an object being identified by its value. \<open>metricKey\<close> above is the
  computation without the cache; \<open>cacheOK\<close> says that every stored key was computed by
  it, which holds for the empty cache and is kept by every call.
\<close>

type_synonym keyCache = "(IMetric \<times> string) list"

function metricKeyCached :: "keyCache \<Rightarrow> IMetric \<Rightarrow> string \<times> keyCache"
  and subKeys :: "keyCache \<Rightarrow> (string \<times> IMetric) list \<Rightarrow> string list \<Rightarrow> string list \<times> keyCache" where
  "metricKeyCached c m =
     (case map_of c m of
        Some k \<Rightarrow> (k, c)
      | None \<Rightarrow>
          (let (exprParts, c1) =
                 (case mathExpression m of
                    None \<Rightarrow> ([], c)
                  | Some e \<Rightarrow>
                      (let (ps, c') = subKeys c (usingMetrics e) (sort (map fst (usingMetrics e)))
                       in (expression e # ps, c')));
               parts = exprParts @ (case metricStat m of None \<Rightarrow> [] | Some s \<Rightarrow> statParts s);
               ret = join ''|'' parts
           in (ret, (m, ret) # c1)))"
| "subKeys c um [] = ([], c)"
| "subKeys c um (i # ids) =
     (case map_of um i of
        None \<Rightarrow> subKeys c um ids
      | Some sub \<Rightarrow>
          (let (k, c1) = metricKeyCached c sub;
               (ps, c2) = subKeys c1 um ids
           in (i # k # ps, c2)))"
  by pat_completeness auto

lemma subsSize_lookup: "map_of um i = Some sub \<Longrightarrow> size sub < subsSize um"
proof -
  have "(i, sub) \<in> set um \<Longrightarrow> size sub < size_list (\<lambda>p. size (snd p)) um" for um
    by (induction um) auto
  then show "map_of um i = Some sub \<Longrightarrow> size sub < subsSize um"
    unfolding subsSize_def by (auto dest!: map_of_SomeD)
qed

termination metricKeyCached
proof (relation "inv_image (less_than <*lex*> less_than)
          (\<lambda>x. case x of Inl (c, m) \<Rightarrow> (size m, 0)
                        | Inr (c, um, ids) \<Rightarrow> (subsSize um, Suc (length ids)))")
qed (auto simp: subsSize_less subsSize_lookup)

declare metricKeyCached.simps [simp del]

definition cacheOK :: "keyCache \<Rightarrow> bool" where
  "cacheOK c = (\<forall>(x, k) \<in> set c. k = metricKey x)"

lemma cacheOK_lookup: "cacheOK c \<Longrightarrow> map_of c m = Some k \<Longrightarrow> k = metricKey m"
  by (auto simp: cacheOK_def dest!: map_of_SomeD)

lemma metricKey_parts:
  "metricKey m =
     join ''|''
       ((case mathExpression m of
           None \<Rightarrow> []
         | Some e \<Rightarrow>
             expression e #
             concat (map (\<lambda>i. case map_of (usingMetrics e) i of
                                 Some sub \<Rightarrow> [i, metricKey sub]
                               | None \<Rightarrow> [])
                         (sort (map fst (usingMetrics e)))))
        @ (case metricStat m of None \<Rightarrow> [] | Some s \<Rightarrow> statParts s))"
  by (cases m) simp

lemma metricKeyCached_correct:
  "cacheOK c \<Longrightarrow>
     fst (metricKeyCached c m) = metricKey m \<and> cacheOK (snd (metricKeyCached c m))"
  "cacheOK c \<Longrightarrow>
     fst (subKeys c um ids)
       = concat (map (\<lambda>i. case map_of um i of Some sub \<Rightarrow> [i, metricKey sub] | None \<Rightarrow> []) ids)
     \<and> cacheOK (snd (subKeys c um ids))"
proof (induction c m and c um ids rule: metricKeyCached_subKeys.induct)
  case (1 c m)
  show ?case
  proof (cases "map_of c m")
    case (Some k)
    with "1.prems" cacheOK_lookup [OF "1.prems" Some] show ?thesis
      by (simp add: metricKeyCached.simps)
  next
    case None
    show ?thesis
    proof (cases "mathExpression m")
      case noExpr: None
      then have "metricKeyCached c m = (metricKey m, (m, metricKey m) # c)"
        using None by (simp add: metricKeyCached.simps metricKey_parts [of m] Let_def)
      with "1.prems" show ?thesis by (simp add: cacheOK_def)
    next
      case (Some e)
      let ?r = "subKeys c (usingMetrics e) (sort (map fst (usingMetrics e)))"
      from "1.IH" [OF None Some "1.prems"]
      have ps: "fst ?r = concat (map (\<lambda>i. case map_of (usingMetrics e) i of
                                 Some sub \<Rightarrow> [i, metricKey sub] | None \<Rightarrow> [])
                         (sort (map fst (usingMetrics e))))"
        and ok: "cacheOK (snd ?r)"
        by simp_all
      have "metricKeyCached c m = (metricKey m, (m, metricKey m) # snd ?r)"
        using None Some ps
        by (simp add: metricKeyCached.simps metricKey_parts [of m] case_prod_unfold Let_def)
      with ok show ?thesis by (simp add: cacheOK_def)
    qed
  qed
next
  case (2 c um)
  then show ?case by simp
next
  case (3 c um i ids)
  show ?case
  proof (cases "map_of um i")
    case None
    with "3.IH"(1) [OF None "3.prems"] show ?thesis by simp
  next
    case (Some sub)
    obtain k c1 where r1: "metricKeyCached c sub = (k, c1)" by (cases "metricKeyCached c sub")
    obtain ps c2 where r2: "subKeys c1 um ids = (ps, c2)" by (cases "subKeys c1 um ids")
    from "3.IH"(2) [OF Some "3.prems"] r1 have k: "k = metricKey sub" and ok1: "cacheOK c1"
      by simp_all
    from "3.IH"(3) [OF Some refl r1 [symmetric] ok1] r2
    have ps: "ps = concat (map (\<lambda>i. case map_of um i of Some sub \<Rightarrow> [i, metricKey sub]
                                     | None \<Rightarrow> []) ids)"
      and ok2: "cacheOK c2"
      by simp_all
    from Some r1 r2 k ps ok2 show ?thesis by simp
  qed
qed

text \<open>
  Claim C4. Two metrics with equal structural content have equal keys, whatever their
  rendering properties, string forms and the order of their bindings; the key of a math
  expression is its expression string followed, for each identifier of \<open>usingMetrics\<close> in
  sorted order, by the identifier and the key of the metric bound to it, joined with
  \<open>|\<close>; and with a cache that holds only computed keys, the cached function returns the
  computed key and leaves such a cache.
\<close>

theorem metricKey_structural:
  "(wfIds m1 \<and> wfIds m2 \<and> content m1 = content m2 \<longrightarrow> metricKey m1 = metricKey m2)
   \<and> (mathExpression m = Some e \<and> metricStat m = None \<and> distinct (map fst (usingMetrics e)) \<longrightarrow>
        metricKey m =
          join ''|'' (expression e #
                      concat (map (\<lambda>(i, sub). [i, metricKey sub]) (sort_key fst (usingMetrics e))))
        \<and> sorted (map fst (sort_key fst (usingMetrics e))))
   \<and> (cacheOK c \<longrightarrow>
        fst (metricKeyCached c m) = metricKey m \<and> cacheOK (snd (metricKeyCached c m)))"
proof (intro conjI impI)
  assume h: "wfIds m1 \<and> wfIds m2 \<and> content m1 = content m2"
  then have w1: "wfIds m1" and w2: "wfIds m2" and c: "content m1 = content m2" by blast+
  have "metricKey m1 = metricKey (content m1)" using w1 by (rule metricKey_content [symmetric])
  also have "\<dots> = metricKey (content m2)" by (simp only: c)
  also have "\<dots> = metricKey m2" using w2 by (rule metricKey_content)
  finally show "metricKey m1 = metricKey m2" .
next
  assume h: "mathExpression m = Some e \<and> metricStat m = None \<and> distinct (map fst (usingMetrics e))"
  then have "metricKey m =
     join ''|''
       ((expression e #
         concat (map (\<lambda>p. [fst p, metricKey (snd p)]) (sort_key fst (usingMetrics e))))
        @ (case metricStat m of None \<Rightarrow> [] | Some s \<Rightarrow> statParts s))"
    by (simp add: metricKey_expression)
  with h show "metricKey m =
          join ''|'' (expression e #
                      concat (map (\<lambda>(i, sub). [i, metricKey sub]) (sort_key fst (usingMetrics e))))"
    by (simp add: case_prod_unfold)
  show "sorted (map fst (sort_key fst (usingMetrics e)))" by simp
next
  assume "cacheOK c"
  then show "fst (metricKeyCached c m) = metricKey m" and "cacheOK (snd (metricKeyCached c m))"
    by (simp_all add: metricKeyCached_correct(1))
qed

text \<open>
  Two expressions with the same content: the bindings in another order, other rendering
  properties and string form.
\<close>

definition sumOfTwo :: IMetric where
  "sumOfTwo = exprOver ''a + b'' [(''b'', statOf cpuConfig), (''a'', statOf netConfig)]"

definition sumOfTwoLabelled :: IMetric where
  "sumOfTwoLabelled =
     Metric None (Some (MetricExpressionConfig ''a + b'' [(''a'', statOf netConfig), (''b'', redCpu)]))
       [(''label'', JStr ''total'')] ''total''"

theorem metricKey_structural_witness:
  "wfIds sumOfTwo \<and> wfIds sumOfTwoLabelled \<and> content sumOfTwo = content sumOfTwoLabelled
   \<and> metricKey sumOfTwo = metricKey sumOfTwoLabelled
   \<and> metricKey sumOfTwo
       = join ''|'' [''a + b'', ''a'', metricKey (statOf netConfig), ''b'', metricKey (statOf cpuConfig)]
   \<and> fst (metricKeyCached [] sumOfTwo) = metricKey sumOfTwo
   \<and> fst (metricKeyCached (snd (metricKeyCached [] sumOfTwo)) sumOfTwoLabelled)
       = metricKey sumOfTwoLabelled"
proof -
  let ?e = "MetricExpressionConfig ''a + b'' [(''b'', statOf cpuConfig), (''a'', statOf netConfig)]"
  have w1: "wfIds sumOfTwo" by code_simp
  have w2: "wfIds sumOfTwoLabelled" by code_simp
  have c: "content sumOfTwo = content sumOfTwoLabelled" by code_simp
  have e: "mathExpression sumOfTwo = Some ?e" and s: "metricStat sumOfTwo = None"
    by (simp_all add: sumOfTwo_def exprOver_def)
  have d: "distinct (map fst (usingMetrics ?e))" by simp
  have srt: "sort_key fst (usingMetrics ?e) = [(''a'', statOf netConfig), (''b'', statOf cpuConfig)]"
    by code_simp
  have ok0: "cacheOK []" by (simp add: cacheOK_def)
  note k = metricKey_structural [of sumOfTwo sumOfTwoLabelled sumOfTwo ?e "[]"]
  from k w1 w2 c have eq: "metricKey sumOfTwo = metricKey sumOfTwoLabelled" by blast
  from k e s d have "metricKey sumOfTwo =
          join ''|'' (expression ?e #
                      concat (map (\<lambda>(i, sub). [i, metricKey sub]) (sort_key fst (usingMetrics ?e))))"
    by blast
  then have parts: "metricKey sumOfTwo
       = join ''|'' [''a + b'', ''a'', metricKey (statOf netConfig), ''b'', metricKey (statOf cpuConfig)]"
    unfolding srt by simp
  from k ok0 have c1: "fst (metricKeyCached [] sumOfTwo) = metricKey sumOfTwo"
    and ok1: "cacheOK (snd (metricKeyCached [] sumOfTwo))"
    by blast+
  from metricKey_structural [where c = "snd (metricKeyCached [] sumOfTwo)" and m = sumOfTwoLabelled]
    ok1
  have c2: "fst (metricKeyCached (snd (metricKeyCached [] sumOfTwo)) sumOfTwoLabelled)
       = metricKey sumOfTwoLabelled"
    by blast
  from w1 w2 c eq parts c1 c2 show ?thesis by (intro conjI)
qed


end
